theory Spec2Isabelle
  imports Main "HOL-Library.Word"
begin

unbundle bit_operations_syntax

section \<open>Primitive types\<close>

text \<open>
  The code works on 64-bit unsigned words throughout: \<^verbatim>\<open>size_type\<close> and
  \<^verbatim>\<open>node_type\<close> are both \<^verbatim>\<open>std::uint64_t\<close>; an edge and a range are pairs of them.
\<close>

type_synonym size_type = "64 word"
type_synonym node_type = "64 word"
type_synonym edge_type = "node_type \<times> size_type"
type_synonym range_type = "size_type \<times> size_type"

subsection \<open>Constants of \<^verbatim>\<open>gbwt/utils.h\<close>\<close>

text \<open>
  The header \<^verbatim>\<open>gbwt/utils.h\<close> declares \<^verbatim>\<open>ENDMARKER\<close>, the sentinel values and
  \<^verbatim>\<open>struct Range\<close>; it is not among the sources, so these constants follow the
  specification.
\<close>

text \<open>Modelled from the spec: \<^verbatim>\<open>ENDMARKER\<close> of utils.h. Section 6: \<^verbatim>\<open>ENDMARKER = 0\<close>.\<close>

definition ENDMARKER :: node_type where
  "ENDMARKER = 0"

text \<open>
  Modelled from the spec: \<^verbatim>\<open>invalid_offset()\<close> of utils.h. Section 6 names it a
  distinguished constant returned in lieu of an error; the model takes the all-ones word.
\<close>

definition invalid_offset :: size_type where
  "invalid_offset = - 1"

text \<open>
  Modelled from the spec: \<^verbatim>\<open>invalid_sequence()\<close> of utils.h. Section 6 names it a
  distinguished constant; the model takes the all-ones word.
\<close>

definition invalid_sequence :: size_type where
  "invalid_sequence = - 1"

text \<open>
  Modelled from the spec: \<^verbatim>\<open>invalid_edge()\<close> of utils.h. Section 6 names it a
  distinguished constant; the model takes the end-marker paired with the invalid offset.
\<close>

definition invalid_edge :: edge_type where
  "invalid_edge = (ENDMARKER, invalid_offset)"

text \<open>
  Modelled from the spec: \<^verbatim>\<open>Range::empty\<close> of utils.h. Section 3.1: a range is the
  inclusive pair \<open>[sp, ep]\<close>, empty iff \<open>ep < sp\<close>. Section 4.6 seeds a search with
  \<open>[0, count - 1]\<close>, which is the range \<open>[0, -1]\<close>, an empty one, when the count is 0,
  and the comment above the search algorithms has them return an empty state when there
  are no matches. In 64-bit words \<open>-1\<close> is the all-ones word, so the two ends are compared
  after adding 1 to each: \<open>[sp, 2^64 - 1]\<close> is read as \<open>[sp, -1]\<close>, and ranges that do
  not touch the all-ones word are compared as they are.
\<close>

definition Range_empty :: "range_type \<Rightarrow> bool" where
  "Range_empty r = (snd r + 1 < fst r + 1)"

text \<open>
  Modelled from the spec: \<^verbatim>\<open>Range::empty_range()\<close> of utils.h. Section 6 names
  \<^verbatim>\<open>empty_range\<close> a distinguished constant; the model takes the empty range \<open>[1, 0]\<close>.
\<close>

definition Range_empty_range :: range_type where
  "Range_empty_range = (1, 0)"

subsection \<open>\<^verbatim>\<open>struct Node\<close> (support.h)\<close>

definition REVERSE_MASK :: node_type where
  "REVERSE_MASK = 1"

definition ID_SHIFT :: nat where
  "ID_SHIFT = 1"

definition Node_id :: "node_type \<Rightarrow> size_type" where
  "Node_id n = drop_bit ID_SHIFT n"

definition Node_is_reverse :: "node_type \<Rightarrow> bool" where
  "Node_is_reverse n = (n AND REVERSE_MASK \<noteq> 0)"

definition Node_encode :: "size_type \<Rightarrow> bool \<Rightarrow> node_type" where
  "Node_encode node_id reversed = push_bit ID_SHIFT node_id OR (if reversed then 1 else 0)"

definition Node_reverse :: "node_type \<Rightarrow> node_type" where
  "Node_reverse n = n XOR REVERSE_MASK"

section \<open>Node records (support.h)\<close>

type_synonym byte_type = "8 word"
type_synonym rank_type = size_type
type_synonym run_type = "rank_type \<times> size_type"
type_synonym sample_type = "size_type \<times> size_type"

text \<open>\<^verbatim>\<open>struct DynamicRecord\<close> and its inline members.\<close>

record DynamicRecord =
  body_size :: size_type
  incoming :: "edge_type list"
  outgoing :: "edge_type list"
  body :: "run_type list"
  ids :: "sample_type list"

definition DynamicRecord_size :: "DynamicRecord \<Rightarrow> size_type" where
  "DynamicRecord_size D = body_size D"

definition DynamicRecord_outdegree :: "DynamicRecord \<Rightarrow> size_type" where
  "DynamicRecord_outdegree D = of_nat (length (outgoing D))"

definition DynamicRecord_runs :: "DynamicRecord \<Rightarrow> size_type" where
  "DynamicRecord_runs D = of_nat (length (body D))"

text \<open>\<^verbatim>\<open>successor\<close> and \<^verbatim>\<open>offset\<close> assume that \<open>outrank\<close> is a valid outgoing edge.\<close>

definition DynamicRecord_successor :: "DynamicRecord \<Rightarrow> rank_type \<Rightarrow> node_type" where
  "DynamicRecord_successor D outrank = fst (outgoing D ! unat outrank)"

definition DynamicRecord_offset :: "DynamicRecord \<Rightarrow> rank_type \<Rightarrow> size_type" where
  "DynamicRecord_offset D outrank = snd (outgoing D ! unat outrank)"

text \<open>
  \<^verbatim>\<open>struct CompressedRecord\<close> and its inline members. The pointer \<^verbatim>\<open>body\<close> with
  \<^verbatim>\<open>data_size\<close> is the list of the \<^verbatim>\<open>data_size\<close> bytes it points to.
\<close>

record CompressedRecord =
  comp_outgoing :: "edge_type list"
  comp_body :: "byte_type list"

definition CompressedRecord_outdegree :: "CompressedRecord \<Rightarrow> size_type" where
  "CompressedRecord_outdegree C = of_nat (length (comp_outgoing C))"

definition CompressedRecord_successor :: "CompressedRecord \<Rightarrow> rank_type \<Rightarrow> node_type" where
  "CompressedRecord_successor C outrank = fst (comp_outgoing C ! unat outrank)"

definition CompressedRecord_offset :: "CompressedRecord \<Rightarrow> rank_type \<Rightarrow> size_type" where
  "CompressedRecord_offset C outrank = snd (comp_outgoing C ! unat outrank)"

subsection \<open>The body as a sequence of outranks\<close>

text \<open>
  Modelled from the spec: section 3.1 reads a run \<open>(outrank, length)\<close> as \<open>length\<close>
  consecutive entries of the body that all map to the outgoing edge \<open>outrank\<close>;
  \<open>expand_body\<close> is the body written out entry by entry.
\<close>

definition expand_body :: "run_type list \<Rightarrow> rank_type list" where
  "expand_body runs = concat (map (\<lambda>(r, len). replicate (unat len) r) runs)"

text \<open>
  Modelled from the spec: the number of entries, among the positions \<open>sp, \<dots>, e - 1\<close> of
  the body, whose outrank satisfies a predicate (the counts of sections 4.1 and 4.2).
\<close>

definition count_in :: "(rank_type \<Rightarrow> bool) \<Rightarrow> rank_type list \<Rightarrow> nat \<Rightarrow> nat \<Rightarrow> nat" where
  "count_in P syms sp e = length (filter P (drop sp (take e syms)))"

text \<open>
  Modelled from the spec: \<open>rank_r(body, i)\<close> of section 4.1, the number of entries with
  outrank \<open>r\<close> among the first \<open>i\<close> positions of the body.
\<close>

definition rank_in :: "rank_type list \<Rightarrow> rank_type \<Rightarrow> nat \<Rightarrow> nat" where
  "rank_in syms r i = count_in (\<lambda>x. x = r) syms 0 i"

subsection \<open>Operations of the dynamic record\<close>

text \<open>
  The member functions of \<^verbatim>\<open>DynamicRecord\<close> that follow are declared in support.h and
  defined in support.cpp, which is not among the sources; they follow section 4.1 and the
  comments of their declarations. They read the body and the outgoing edges by position,
  as the code does on a record that satisfies its invariants. \<^verbatim>\<open>edgeTo\<close>, declared in
  support.h, is a parameter of the model: it maps a node and the outgoing edges to an
  outrank, and to a value \<open>\<ge> outdegree\<close> when there is no edge.
\<close>

type_synonym edgeTo_type = "node_type \<Rightarrow> edge_type list \<Rightarrow> rank_type"

text \<open>
  Modelled from the spec: \<^verbatim>\<open>DynamicRecord::LF(i)\<close>. Section 4.1: with \<open>r\<close> the outrank
  at position \<open>i\<close>, the result is \<open>(outgoing[r].node, outgoing[r].offset + rank_r(body, i))\<close>;
  the invalid edge if \<open>i \<ge> body_size\<close>.
\<close>

definition DynamicRecord_LF :: "DynamicRecord \<Rightarrow> size_type \<Rightarrow> edge_type" where
  "DynamicRecord_LF D i =
     (if DynamicRecord_size D \<le> i then invalid_edge
      else let r = expand_body (body D) ! unat i in
        (DynamicRecord_successor D r,
         DynamicRecord_offset D r + of_nat (rank_in (expand_body (body D)) r (unat i))))"

text \<open>
  Modelled from the spec: \<^verbatim>\<open>DynamicRecord::LF(i, to)\<close>. Section 4.1: the invalid offset
  if there is no edge to \<open>to\<close>, else \<open>outgoing[edgeTo(to)].offset\<close> plus the rank of
  that outrank at \<open>i\<close>.
\<close>

definition DynamicRecord_LF_to ::
  "edgeTo_type \<Rightarrow> DynamicRecord \<Rightarrow> size_type \<Rightarrow> node_type \<Rightarrow> size_type" where
  "DynamicRecord_LF_to edgeTo D i to =
     (let outrank = edgeTo to (outgoing D) in
      if DynamicRecord_outdegree D \<le> outrank then invalid_offset
      else DynamicRecord_offset D outrank +
             of_nat (rank_in (expand_body (body D)) outrank (unat i)))"

text \<open>
  Modelled from the spec: \<^verbatim>\<open>DynamicRecord::LF(range, to)\<close>. Section 4.1: two endpoint
  \<^verbatim>\<open>LF\<close>s, the first at \<open>sp\<close> and the second, less one, just after \<open>ep\<close>, so that an
  inverted result is an empty range; the declaration's comment: \<^verbatim>\<open>Range::empty_range()\<close>
  if the range is empty or the destination is invalid.
\<close>

definition DynamicRecord_LF_range ::
  "edgeTo_type \<Rightarrow> DynamicRecord \<Rightarrow> range_type \<Rightarrow> node_type \<Rightarrow> range_type" where
  "DynamicRecord_LF_range edgeTo D rng to =
     (if Range_empty rng then Range_empty_range
      else if DynamicRecord_outdegree D \<le> edgeTo to (outgoing D) then Range_empty_range
      else (DynamicRecord_LF_to edgeTo D (fst rng) to,
            DynamicRecord_LF_to edgeTo D (snd rng + 1) to - 1))"

text \<open>
  Modelled from the spec: \<^verbatim>\<open>DynamicRecord::bdLF\<close>, with the output parameter
  \<^verbatim>\<open>reverse_offset\<close> as the second component of the result. Section 4.1 and the
  declaration's comment: as \<^verbatim>\<open>LF(range, to)\<close>, and the number of positions of the range
  whose successor \<open>x\<close> has \<open>reverse(x) < reverse(to)\<close>.
\<close>

definition DynamicRecord_bdLF ::
  "edgeTo_type \<Rightarrow> DynamicRecord \<Rightarrow> range_type \<Rightarrow> node_type \<Rightarrow> range_type \<times> size_type" where
  "DynamicRecord_bdLF edgeTo D rng to =
     (DynamicRecord_LF_range edgeTo D rng to,
      of_nat (count_in (\<lambda>r. Node_reverse (DynamicRecord_successor D r) < Node_reverse to)
                (expand_body (body D)) (unat (fst rng)) (Suc (unat (snd rng)))))"

text \<open>
  Modelled from the spec: \<^verbatim>\<open>DynamicRecord::operator[]\<close>. Section 4.1: the successor node
  at the body position \<open>i\<close>. Outside the body, where the spec is silent, the model
  returns the end-marker.
\<close>

definition DynamicRecord_at :: "DynamicRecord \<Rightarrow> size_type \<Rightarrow> node_type" where
  "DynamicRecord_at D i =
     (if DynamicRecord_size D \<le> i then ENDMARKER
      else DynamicRecord_successor D (expand_body (body D) ! unat i))"

subsection \<open>The byte encoding\<close>

text \<open>
  The byte-level encoders are in internal.h, which is not among the sources. Section 4.2
  speaks of a variable-byte encoder and of a run encoder over a joint alphabet and leaves
  their constants to the implementation; the model fixes them as stated below.
\<close>

text \<open>
  Modelled from the spec: the variable-byte encoder of section 4.2, writing. The model takes
  the usual code: seven data bits per byte, least significant group first, the high bit
  set on every byte but the last.
\<close>

function ByteCode_write :: "size_type \<Rightarrow> byte_type list" where
  "ByteCode_write v =
     (if v \<le> 127 then [ucast v]
      else (ucast (v AND 127) OR 128) # ByteCode_write (drop_bit 7 v))"
  by pat_completeness auto
termination
proof (relation "measure unat")
  show "wf (measure unat)" by simp
next
  fix v :: size_type
  assume "\<not> v \<le> 127"
  then have "127 < unat v" by (simp add: word_le_nat_alt)
  then have "unat v div 128 < unat v" by simp
  then show "(drop_bit 7 v, v) \<in> measure unat"
    by (simp add: drop_bit_eq_div unat_div)
qed

declare ByteCode_write.simps [simp del]

text \<open>
  Modelled from the spec: the variable-byte encoder of section 4.2, reading. The result is
  the value and the bytes that follow it; \<open>None\<close> when the bytes end inside a value.
\<close>

fun ByteCode_read :: "byte_type list \<Rightarrow> (size_type \<times> byte_type list) option" where
  "ByteCode_read [] = None"
| "ByteCode_read (b # bs) =
     (if b AND 128 = 0 then Some (ucast b, bs)
      else (case ByteCode_read bs of
              None \<Rightarrow> None
            | Some (v, rest) \<Rightarrow> Some (ucast (b AND 127) + push_bit 7 v, rest)))"

text \<open>
  Modelled from the spec: the threshold of the run encoder, which section 9 leaves to the
  implementation ("must match on both sides"). The joint alphabet of (outrank, length)
  pairs has the 256 codes of a byte: with \<open>sigma\<close> outgoing edges the lengths
  \<open>1, \<dots>, 256 div sigma - 1\<close> are short, and the codes of the length \<open>256 div sigma\<close>
  mark a run that continues.
\<close>

definition Run_continues :: "size_type \<Rightarrow> nat" where
  "Run_continues sigma = 256 div unat sigma"

text \<open>
  Modelled from the spec: the one-byte code of an outrank and the length \<open>l + 1\<close> in the
  joint alphabet of section 9.
\<close>

definition joint_code :: "size_type \<Rightarrow> rank_type \<Rightarrow> nat \<Rightarrow> byte_type" where
  "joint_code sigma r l = of_nat (unat r + unat sigma * l)"

text \<open>
  Modelled from the spec: the run encoder, writing. Section 4.2: a short run packs outrank
  and length in one byte; a longer run writes a byte that carries the outrank and goes on
  with the rest of the length in variable-byte. With one outgoing edge the outrank
  contributes nothing to the code and only lengths are written. An alphabet of 255 edges
  or more leaves no room for a joint code in a byte: outrank and length - 1 are then both
  written in variable-byte.
\<close>

definition Run_write :: "size_type \<Rightarrow> run_type \<Rightarrow> byte_type list" where
  "Run_write sigma run =
     (let r = fst run; len = snd run in
      if 255 \<le> sigma then ByteCode_write r @ ByteCode_write (len - 1)
      else if unat len < Run_continues sigma then [joint_code sigma r (unat len - 1)]
      else joint_code sigma r (Run_continues sigma - 1) #
             ByteCode_write (len - of_nat (Run_continues sigma)))"

text \<open>
  Modelled from the spec: the run encoder, reading, the inverse of the above. The result is
  the run and the bytes that follow it; \<open>None\<close> when the bytes end inside a run.
\<close>

definition Run_read :: "size_type \<Rightarrow> byte_type list \<Rightarrow> (run_type \<times> byte_type list) option" where
  "Run_read sigma bs =
     (if 255 \<le> sigma then
        (case ByteCode_read bs of
           None \<Rightarrow> None
         | Some (r, bs1) \<Rightarrow>
             (case ByteCode_read bs1 of
                None \<Rightarrow> None
              | Some (l, rest) \<Rightarrow> Some ((r, l + 1), rest)))
      else
        (case bs of
           [] \<Rightarrow> None
         | b # rest \<Rightarrow>
             let r = of_nat (unat b mod unat sigma); l = unat b div unat sigma + 1 in
             if l < Run_continues sigma then Some ((r, of_nat l), rest)
             else (case ByteCode_read rest of
                     None \<Rightarrow> None
                   | Some (extra, rest') \<Rightarrow> Some ((r, of_nat l + extra), rest'))))"

text \<open>
  Modelled from the spec: the pairs of the outgoing header. Section 4.2: each successor
  node is written as the difference from the previous one (the first from 0), followed by
  the offset, both in variable-byte.
\<close>

fun write_edges :: "node_type \<Rightarrow> edge_type list \<Rightarrow> byte_type list" where
  "write_edges prev [] = []"
| "write_edges prev (e # es) =
     ByteCode_write (fst e - prev) @ ByteCode_write (snd e) @ write_edges (fst e) es"

text \<open>Modelled from the spec: the body, the sequence of the encoded runs (section 4.2).\<close>

definition write_body :: "size_type \<Rightarrow> run_type list \<Rightarrow> byte_type list" where
  "write_body sigma runs = concat (map (Run_write sigma) runs)"

text \<open>
  Modelled from the spec: the body that \<^verbatim>\<open>writeBWT\<close> writes. Section 4.2: the empty
  record, with no outgoing edge, is the single byte 0 of its count and has no body.
\<close>

definition body_bytes :: "DynamicRecord \<Rightarrow> byte_type list" where
  "body_bytes D =
     (if 0 < DynamicRecord_outdegree D then write_body (DynamicRecord_outdegree D) (body D)
      else [])"

text \<open>
  Modelled from the spec: \<^verbatim>\<open>DynamicRecord::writeBWT\<close> (support.cpp). Section 4.2: the
  variable-byte count \<open>k\<close> of outgoing edges, the \<open>k\<close> pairs, the body. The function
  returns the bytes that the code appends to its output vector.
\<close>

definition writeBWT :: "DynamicRecord \<Rightarrow> byte_type list" where
  "writeBWT D =
     ByteCode_write (DynamicRecord_outdegree D) @ write_edges 0 (outgoing D) @ body_bytes D"

text \<open>
  Modelled from the spec: reading the \<open>k\<close> pairs of the outgoing header (section 4.2),
  the inverse of \<open>write_edges\<close>; \<open>None\<close> when the bytes end inside the header.
\<close>

fun read_edges ::
  "nat \<Rightarrow> node_type \<Rightarrow> byte_type list \<Rightarrow> (edge_type list \<times> byte_type list) option" where
  "read_edges 0 prev bs = Some ([], bs)"
| "read_edges (Suc k) prev bs =
     (case ByteCode_read bs of
        None \<Rightarrow> None
      | Some (delta, bs1) \<Rightarrow>
          (case ByteCode_read bs1 of
             None \<Rightarrow> None
           | Some (off, bs2) \<Rightarrow>
               (case read_edges k (prev + delta) bs2 of
                  None \<Rightarrow> None
                | Some (es, rest) \<Rightarrow> Some ((prev + delta, off) # es, rest))))"

text \<open>
  Modelled from the spec: the constructor \<^verbatim>\<open>CompressedRecord(source, start, limit)\<close>
  (support.cpp). It reads the outgoing header at the offset \<open>start\<close> and takes the bytes
  from the end of the header up to \<open>limit\<close> as the body (section 4.2). \<open>None\<close> is a
  header that runs out of bytes. Positions in the byte vector are natural numbers.
\<close>

definition CompressedRecord_of :: "byte_type list \<Rightarrow> nat \<Rightarrow> nat \<Rightarrow> CompressedRecord option" where
  "CompressedRecord_of source start_offset limit =
     (case ByteCode_read (drop start_offset source) of
        None \<Rightarrow> None
      | Some (k, bs1) \<Rightarrow>
          (case read_edges (unat k) 0 bs1 of
             None \<Rightarrow> None
           | Some (es, rest) \<Rightarrow>
               Some \<lparr> comp_outgoing = es,
                      comp_body = take (limit - (length source - length rest)) rest \<rparr>))"

subsection \<open>Operations of the compressed record\<close>

text \<open>
  The member functions of \<^verbatim>\<open>CompressedRecord\<close> that follow are declared in support.h
  and defined in support.cpp, which is not among the sources; they follow section 4.2 and
  the comments of their declarations. A result is \<open>None\<close> when the body does not
  decode.
\<close>

text \<open>
  Modelled from the spec: decoding the body of a compressed record, run by run until its
  bytes are used up (section 4.2); \<open>None\<close> is a run that is cut off by the end of the
  body.
\<close>

function read_runs :: "size_type \<Rightarrow> byte_type list \<Rightarrow> run_type list option" where
  "read_runs sigma bs =
     (if bs = [] then Some []
      else (case Run_read sigma bs of
              None \<Rightarrow> None
            | Some (run, rest) \<Rightarrow>
                (case read_runs sigma rest of
                   None \<Rightarrow> None
                 | Some runs \<Rightarrow> Some (run # runs))))"
  by pat_completeness auto

lemma ByteCode_read_shorter: "ByteCode_read bs = Some (v, rest) \<Longrightarrow> length rest < length bs"
proof (induction bs arbitrary: v rest)
  case Nil
  then show ?case by simp
next
  case (Cons b bs)
  then show ?case
    by (fastforce split: if_splits option.splits)
qed

lemma Run_read_shorter: "Run_read sigma bs = Some (run, rest) \<Longrightarrow> length rest < length bs"
  by (cases bs)
     (auto simp: Run_read_def Let_def split: if_splits option.splits
           dest!: ByteCode_read_shorter)

termination read_runs
  by (relation "measure (\<lambda>(sigma, bs). length bs)") (auto dest: Run_read_shorter)

declare read_runs.simps [simp del]

text \<open>
  Modelled from the spec: the runs of a compressed record. An empty record, with no outgoing
  edge, has no body (section 4.2); otherwise the body decodes with the outdegree as the
  alphabet size.
\<close>

definition CompressedRecord_runs_list :: "CompressedRecord \<Rightarrow> run_type list option" where
  "CompressedRecord_runs_list C =
     (if CompressedRecord_outdegree C = 0 then Some []
      else read_runs (CompressedRecord_outdegree C) (comp_body C))"

text \<open>
  Modelled from the spec: the scan of \<^verbatim>\<open>LF(i)\<close>. Section 4.2: it goes through the runs
  from the start, accumulating offsets (here the number of entries seen per outrank), until
  it finds the run that contains the position \<open>i\<close>; \<open>None\<close> when the body ends before.
\<close>

fun LF_scan :: "run_type list \<Rightarrow> nat \<Rightarrow> (rank_type \<Rightarrow> nat) \<Rightarrow> (rank_type \<times> nat) option" where
  "LF_scan [] i seen = None"
| "LF_scan (run # runs) i seen =
     (let r = fst run; l = unat (snd run) in
      if i < l then Some (r, seen r + i)
      else LF_scan runs (i - l) (seen (r := seen r + l)))"

text \<open>
  Modelled from the spec: the scan of \<^verbatim>\<open>LF(i, to)\<close>, \<^verbatim>\<open>LF(range, to)\<close> and \<^verbatim>\<open>bdLF\<close>.
  Section 4.2: the same scan, counting only the entries of the wanted outranks (here those
  that satisfy a predicate, among the positions \<open>sp, \<dots>, e - 1\<close>) and stopping early when
  the end position is reached.
\<close>

fun count_scan :: "(rank_type \<Rightarrow> bool) \<Rightarrow> run_type list \<Rightarrow> nat \<Rightarrow> nat \<Rightarrow> nat" where
  "count_scan P [] sp e = 0"
| "count_scan P (run # runs) sp e =
     (let l = unat (snd run) in
      if e = 0 then 0
      else (if P (fst run) then min e l - sp else 0) + count_scan P runs (sp - l) (e - l))"

text \<open>
  Modelled from the spec: \<^verbatim>\<open>CompressedRecord::size()\<close>. Section 4.2: it scans the whole
  body; the size is the sum of the run lengths.
\<close>

definition CompressedRecord_size :: "CompressedRecord \<Rightarrow> size_type option" where
  "CompressedRecord_size C =
     map_option (\<lambda>runs. sum_list (map snd runs)) (CompressedRecord_runs_list C)"

text \<open>
  Modelled from the spec: \<^verbatim>\<open>CompressedRecord::runs()\<close>. Section 4.2: it scans the whole
  body and counts the runs.
\<close>

definition CompressedRecord_runs :: "CompressedRecord \<Rightarrow> size_type option" where
  "CompressedRecord_runs C =
     map_option (\<lambda>runs. of_nat (length runs)) (CompressedRecord_runs_list C)"

text \<open>
  Modelled from the spec: \<^verbatim>\<open>CompressedRecord::LF(i)\<close>, by the scan of section 4.2; the
  declaration's comment: \<open>(node, LF(i, node))\<close>, or the invalid edge if the offset is
  invalid.
\<close>

definition CompressedRecord_LF :: "CompressedRecord \<Rightarrow> size_type \<Rightarrow> edge_type option" where
  "CompressedRecord_LF C i =
     map_option
       (\<lambda>runs. case LF_scan runs (unat i) (\<lambda>r. 0) of
                  None \<Rightarrow> invalid_edge
                | Some (r, k) \<Rightarrow>
                    (CompressedRecord_successor C r, CompressedRecord_offset C r + of_nat k))
       (CompressedRecord_runs_list C)"

text \<open>
  Modelled from the spec: the offset of an outgoing edge plus the number of entries with its
  outrank before the position \<open>i\<close>, by the counting scan of section 4.2.
\<close>

definition rank_to :: "CompressedRecord \<Rightarrow> run_type list \<Rightarrow> rank_type \<Rightarrow> size_type \<Rightarrow> size_type" where
  "rank_to C runs outrank i =
     CompressedRecord_offset C outrank + of_nat (count_scan (\<lambda>x. x = outrank) runs 0 (unat i))"

text \<open>
  Modelled from the spec: \<^verbatim>\<open>CompressedRecord::LF(i, to)\<close>, by the counting scan of section
  4.2; the declaration's comment: the invalid offset if there is no edge to the destination.
\<close>

definition CompressedRecord_LF_to ::
  "edgeTo_type \<Rightarrow> CompressedRecord \<Rightarrow> size_type \<Rightarrow> node_type \<Rightarrow> size_type option" where
  "CompressedRecord_LF_to edgeTo C i to =
     map_option
       (\<lambda>runs. let outrank = edgeTo to (comp_outgoing C) in
                if CompressedRecord_outdegree C \<le> outrank then invalid_offset
                else rank_to C runs outrank i)
       (CompressedRecord_runs_list C)"

text \<open>
  Modelled from the spec: the range of \<^verbatim>\<open>LF(range, to)\<close> on decoded runs: the two endpoint
  values of section 4.1 by the counting scan of section 4.2; the declaration's comment:
  \<^verbatim>\<open>Range::empty_range()\<close> if the range is empty or the destination is invalid.
\<close>

definition range_to ::
  "edgeTo_type \<Rightarrow> CompressedRecord \<Rightarrow> run_type list \<Rightarrow> range_type \<Rightarrow> node_type \<Rightarrow> range_type" where
  "range_to edgeTo C runs rng to =
     (let outrank = edgeTo to (comp_outgoing C) in
      if Range_empty rng then Range_empty_range
      else if CompressedRecord_outdegree C \<le> outrank then Range_empty_range
      else (rank_to C runs outrank (fst rng), rank_to C runs outrank (snd rng + 1) - 1))"

text \<open>Modelled from the spec: \<^verbatim>\<open>CompressedRecord::LF(range, to)\<close> (section 4.2).\<close>

definition CompressedRecord_LF_range ::
  "edgeTo_type \<Rightarrow> CompressedRecord \<Rightarrow> range_type \<Rightarrow> node_type \<Rightarrow> range_type option" where
  "CompressedRecord_LF_range edgeTo C rng to =
     map_option (\<lambda>runs. range_to edgeTo C runs rng to) (CompressedRecord_runs_list C)"

text \<open>
  Modelled from the spec: \<^verbatim>\<open>CompressedRecord::bdLF\<close>, with the output parameter
  \<^verbatim>\<open>reverse_offset\<close> as the second component. Section 4.2: it additionally accumulates
  the contributions of the outranks whose successor's reverse orientation is smaller than
  that of \<open>to\<close>.
\<close>

definition CompressedRecord_bdLF ::
  "edgeTo_type \<Rightarrow> CompressedRecord \<Rightarrow> range_type \<Rightarrow> node_type \<Rightarrow>
     (range_type \<times> size_type) option" where
  "CompressedRecord_bdLF edgeTo C rng to =
     map_option
       (\<lambda>runs. (range_to edgeTo C runs rng to,
                 of_nat (count_scan
                           (\<lambda>r. Node_reverse (CompressedRecord_successor C r) < Node_reverse to)
                           runs (unat (fst rng)) (Suc (unat (snd rng))))))
       (CompressedRecord_runs_list C)"

text \<open>
  Modelled from the spec: \<^verbatim>\<open>CompressedRecord::operator[]\<close>, the successor node at a
  position of the body, found by the scan of \<^verbatim>\<open>LF(i)\<close>. Outside the body, where the spec
  is silent, the model returns the end-marker.
\<close>

definition CompressedRecord_at :: "CompressedRecord \<Rightarrow> size_type \<Rightarrow> node_type option" where
  "CompressedRecord_at C i =
     map_option
       (\<lambda>runs. case LF_scan runs (unat i) (\<lambda>r. 0) of
                  None \<Rightarrow> ENDMARKER
                | Some (r, k) \<Rightarrow> CompressedRecord_successor C r)
       (CompressedRecord_runs_list C)"

subsection \<open>Well-formed records\<close>

text \<open>
  The invariants of a record that the encoding relies on (section 3.2): the body decodes
  to exactly \<open>body_size\<close> entries (I1), every run names an outgoing edge of the record
  and has a length of at least 1, and the number of outgoing edges is a 64-bit count.
\<close>

definition record_ok :: "DynamicRecord \<Rightarrow> bool" where
  "record_ok D \<longleftrightarrow>
     length (outgoing D) < 2 ^ 64 \<and>
     list_all (\<lambda>run. fst run < DynamicRecord_outdegree D \<and> snd run \<noteq> 0) (body D) \<and>
     unat (body_size D) = sum_list (map (\<lambda>run. unat (snd run)) (body D))"

text \<open>The record of node 2 in the index of the paths \<open>[2, 4]\<close> and \<open>[2, 5]\<close>.\<close>

definition toy_record :: DynamicRecord where
  "toy_record =
     \<lparr> body_size = 2, incoming = [(0, 2)], outgoing = [(4, 0), (5, 0)],
       body = [(0, 1), (1, 1)], ids = [] \<rparr>"

text \<open>An \<^verbatim>\<open>edgeTo\<close> by linear search, for the examples.\<close>

fun edgeTo_from :: "nat \<Rightarrow> node_type \<Rightarrow> edge_type list \<Rightarrow> rank_type" where
  "edgeTo_from k to [] = of_nat k"
| "edgeTo_from k to (e # es) = (if fst e = to then of_nat k else edgeTo_from (Suc k) to es)"

section \<open>Search states and the index interface\<close>

text \<open>
  \<^verbatim>\<open>struct SearchState\<close> of algorithms.h. The fields \<^verbatim>\<open>node\<close> and \<^verbatim>\<open>range\<close> are
  \<open>state_node\<close> and \<open>state_range\<close> here (\<open>range\<close> is a constant of HOL).
\<close>

record SearchState =
  state_node :: node_type
  state_range :: range_type

text \<open>The default constructor \<^verbatim>\<open>SearchState()\<close>: node 0 and the empty range.\<close>

definition SearchState_default :: SearchState where
  "SearchState_default = \<lparr> state_node = 0, state_range = Range_empty_range \<rparr>"

text \<open>\<^verbatim>\<open>SearchState(node_id, sp, ep)\<close>.\<close>

definition SearchState_of :: "node_type \<Rightarrow> size_type \<Rightarrow> size_type \<Rightarrow> SearchState" where
  "SearchState_of node_id sp ep = \<lparr> state_node = node_id, state_range = (sp, ep) \<rparr>"

definition SearchState_empty :: "SearchState \<Rightarrow> bool" where
  "SearchState_empty s = Range_empty (state_range s)"

text \<open>
  The algorithms are templates over \<^verbatim>\<open>GBWTType\<close> (\<^verbatim>\<open>GBWT\<close> or \<^verbatim>\<open>DynamicGBWT\<close>), whose
  classes are not among the sources. The member functions the algorithms call are the
  parameters of the model: \<open>LF_state\<close> is \<^verbatim>\<open>LF(state, node)\<close> and \<open>LF\<close> is
  \<^verbatim>\<open>LF(position)\<close>.
\<close>

record GBWTType =
  contains :: "node_type \<Rightarrow> bool"
  count :: "node_type \<Rightarrow> size_type"
  sequences :: size_type
  start :: "size_type \<Rightarrow> edge_type"
  LF_state :: "SearchState \<Rightarrow> node_type \<Rightarrow> range_type"
  LF :: "edge_type \<Rightarrow> edge_type"
  tryLocate :: "edge_type \<Rightarrow> size_type"

section \<open>The search algorithms (algorithms.h)\<close>

text \<open>
  \<^verbatim>\<open>extend\<close>: the iterator pair is the list of remaining symbols. The loop runs while a
  symbol remains and the range is not empty; an absent symbol returns \<^verbatim>\<open>SearchState()\<close>.
  \<^verbatim>\<open>LF\<close> is called on the state before its node is overwritten.
\<close>

fun extend :: "GBWTType \<Rightarrow> SearchState \<Rightarrow> node_type list \<Rightarrow> SearchState" where
  "extend index state [] = state"
| "extend index state (x # xs) =
     (if Range_empty (state_range state) then state
      else if \<not> contains index x then SearchState_default
      else extend index \<lparr> state_node = x, state_range = LF_state index state x \<rparr> xs)"

text \<open>\<^verbatim>\<open>find\<close>, named \<open>find_pattern\<close> (\<open>find\<close> is a list function of HOL).\<close>

definition find_pattern :: "GBWTType \<Rightarrow> node_type list \<Rightarrow> SearchState" where
  "find_pattern index pattern =
     (case pattern of
        [] \<Rightarrow> SearchState_default
      | x # xs \<Rightarrow>
          if \<not> contains index x then SearchState_default
          else extend index (SearchState_of x 0 (count index x - 1)) xs)"

definition prefix :: "GBWTType \<Rightarrow> node_type list \<Rightarrow> SearchState" where
  "prefix index pattern = extend index (SearchState_of ENDMARKER 0 (sequences index - 1)) pattern"

text \<open>
  \<^verbatim>\<open>locate\<close>: the \<^verbatim>\<open>while(true)\<close> loop has no bound of its own, so it is a partial
  function; \<open>None\<close> is the run that never returns.
\<close>

partial_function (option) locate_loop :: "GBWTType \<Rightarrow> edge_type \<Rightarrow> size_type option" where
  "locate_loop index position =
     (if tryLocate index position \<noteq> invalid_sequence then Some (tryLocate index position)
      else locate_loop index (LF index position))"

definition locate :: "GBWTType \<Rightarrow> edge_type \<Rightarrow> size_type option" where
  "locate index position =
     (if \<not> contains index (fst position) then Some invalid_sequence
      else locate_loop index position)"

text \<open>
  \<^verbatim>\<open>extract\<close> (named \<open>extract_path\<close>: \<open>extract\<close> is a command of Isabelle):
  the walk stops at the first position whose node is the end-marker.
\<close>

partial_function (option) extract_loop ::
  "GBWTType \<Rightarrow> edge_type \<Rightarrow> node_type list \<Rightarrow> node_type list option" where
  "extract_loop index position result =
     (if fst position \<noteq> ENDMARKER
      then extract_loop index (LF index position) (result @ [fst position])
      else Some result)"

definition extract_path :: "GBWTType \<Rightarrow> size_type \<Rightarrow> node_type list option" where
  "extract_path index sequence =
     (if sequences index \<le> sequence then Some []
      else if start index sequence = invalid_edge then Some []
      else extract_loop index (start index sequence) [])"

section \<open>Paths, cells and samples\<close>

text \<open>
  The vocabulary of the statements about \<^verbatim>\<open>locate\<close> and \<^verbatim>\<open>extract\<close>, in terms of
  the index interface. The path of the stored sequence \<open>s\<close> is the walk from
  \<^verbatim>\<open>start(s)\<close> by \<^verbatim>\<open>LF\<close>; its body is the part before the first end-marker.
\<close>

definition path_position :: "GBWTType \<Rightarrow> size_type \<Rightarrow> nat \<Rightarrow> edge_type" where
  "path_position index s k = (LF index ^^ k) (start index s)"

definition on_body :: "GBWTType \<Rightarrow> size_type \<Rightarrow> nat \<Rightarrow> bool" where
  "on_body index s k \<longleftrightarrow>
     s < sequences index \<and> (\<forall>j\<le>k. fst (path_position index s j) \<noteq> ENDMARKER)"

definition passes_through :: "GBWTType \<Rightarrow> size_type \<Rightarrow> edge_type \<Rightarrow> bool" where
  "passes_through index s position \<longleftrightarrow>
     (\<exists>k. on_body index s k \<and> path_position index s k = position)"

definition sampled_along_body :: "GBWTType \<Rightarrow> size_type \<Rightarrow> bool" where
  "sampled_along_body index s \<longleftrightarrow>
     (\<exists>k. on_body index s k \<and> tryLocate index (path_position index s k) \<noteq> invalid_sequence)"

definition every_sequence_sampled :: "GBWTType \<Rightarrow> bool" where
  "every_sequence_sampled index \<longleftrightarrow> (\<forall>s. s < sequences index \<longrightarrow> sampled_along_body index s)"

definition valid_position :: "GBWTType \<Rightarrow> edge_type \<Rightarrow> bool" where
  "valid_position index position \<longleftrightarrow>
     contains index (fst position) \<and> snd position < count index (fst position)"

text \<open>A sample found on the body of a path carries the id of that path.\<close>

definition samples_correct :: "GBWTType \<Rightarrow> bool" where
  "samples_correct index \<longleftrightarrow>
     (\<forall>s k. on_body index s k \<and> tryLocate index (path_position index s k) \<noteq> invalid_sequence
        \<longrightarrow> tryLocate index (path_position index s k) = s)"

section \<open>A small index\<close>

text \<open>
  The index of the two paths \<open>[2, 4]\<close> and \<open>[2, 5]\<close> over the alphabet
  \<open>{0, 2, 3, 4, 5}\<close> (scenario 3 of the specification), given by the tables of its
  member functions. Node 3 is in the alphabet and has an empty record. Row \<open>s\<close> of the
  end-marker record leads to the first cell of sequence \<open>s\<close>; the last cell of a path
  leads to the end-marker record. The last cell of each path carries a sample.
\<close>

definition toy_LF :: "edge_type \<Rightarrow> edge_type" where
  "toy_LF p =
     (if p = (0, 0) then (2, 0) else if p = (0, 1) then (2, 1)
      else if p = (2, 0) then (4, 0) else if p = (2, 1) then (5, 0)
      else if p = (4, 0) then (0, 0) else if p = (5, 0) then (0, 0)
      else invalid_edge)"

definition toy_LF_state :: "SearchState \<Rightarrow> node_type \<Rightarrow> range_type" where
  "toy_LF_state st x =
     (let n = state_node st; r = state_range st in
      if Range_empty r then Range_empty_range
      else if n = 0 \<and> x = 2 \<and> snd r \<le> 1 then r
      else if n = 2 \<and> x = 4 \<and> fst r = 0 then (0, 0)
      else if n = 2 \<and> x = 5 \<and> fst r \<le> 1 \<and> 1 \<le> snd r then (0, 0)
      else if (n = 4 \<or> n = 5) \<and> x = 0 \<and> fst r = 0 then (0, 0)
      else Range_empty_range)"

definition toy_index :: GBWTType where
  "toy_index =
     \<lparr> contains = (\<lambda>n. n = 0 \<or> (1 < n \<and> n < 6)),
       count = (\<lambda>n. if n = 0 \<or> n = 2 then 2 else if n = 4 \<or> n = 5 then 1 else 0),
       sequences = 2,
       start = (\<lambda>s. if s = 0 then (2, 0) else if s = 1 then (2, 1) else invalid_edge),
       LF_state = toy_LF_state,
       LF = toy_LF,
       tryLocate = (\<lambda>p. if p = (4, 0) then 0 else if p = (5, 0) then 1 else invalid_sequence) \<rparr>"

text \<open>The same paths with the samples at the first cell of each path instead.\<close>

definition toy_index_start_sampled :: GBWTType where
  "toy_index_start_sampled =
     toy_index \<lparr> tryLocate :=
       (\<lambda>p. if p = (2, 0) then 0 else if p = (2, 1) then 1 else invalid_sequence) \<rparr>"

text \<open>The index that stores no sequence.\<close>

definition empty_index :: GBWTType where
  "empty_index =
     \<lparr> contains = (\<lambda>n. n = 0),
       count = (\<lambda>n. 0),
       sequences = 0,
       start = (\<lambda>s. invalid_edge),
       LF_state = (\<lambda>st x. Range_empty_range),
       LF = (\<lambda>p. invalid_edge),
       tryLocate = (\<lambda>p. invalid_sequence) \<rparr>"

section \<open>Node encoding\<close>

text \<open>
  C8 (counterexample): the identifier does not survive \<^verbatim>\<open>Node::encode\<close> for every 64-bit
  \<open>id\<close>. The shift drops bit 63, so the identifier \<open>2^63\<close> encodes to node 0 and
  \<^verbatim>\<open>Node::id\<close> gives back 0.
\<close>

theorem Node_id_encode_counterexample:
  "Node_id (Node_encode (2 ^ 63) False) \<noteq> 2 ^ 63"
  by (simp add: Node_id_def Node_encode_def ID_SHIFT_def)

lemma Node_reverse_twice: "Node_reverse (Node_reverse n) = n"
  by (simp add: Node_reverse_def xor.assoc)

lemma Node_is_reverse_encode: "Node_is_reverse (Node_encode i reversed) = reversed"
proof -
  have "(push_bit (Suc 0) i OR (if reversed then 1 else 0 :: node_type)) AND 1 =
          (if reversed then 1 else 0)"
    apply (rule bit_eqI)
    apply (simp only: bit_and_iff bit_or_iff bit_push_bit_iff bit_1_iff)
    apply (auto simp: bit_1_iff)
    done
  then show ?thesis
    by (simp add: Node_is_reverse_def Node_encode_def REVERSE_MASK_def ID_SHIFT_def)
qed

lemma Node_id_encode:
  assumes "i < 2 ^ 63"
  shows "Node_id (Node_encode i reversed) = i"
proof -
  have top: "\<not> bit i 63"
    using assms
    by (metis div_word_less drop_bit_eq_div even_drop_bit_iff_not_bit even_zero)
  have room: "Suc n < 64" if "bit i n" for n
    using that top bit_imp_le_length [of i n] by (cases "n = 63") auto
  have "drop_bit (Suc 0) (2 * i OR (if reversed then 1 else 0 :: node_type)) = i"
    by (rule bit_eqI)
       (use room in \<open>auto simp: bit_drop_bit_eq bit_or_iff bit_double_Suc_iff bit_1_iff\<close>)
  then show ?thesis
    by (simp add: Node_id_def Node_encode_def ID_SHIFT_def mult.commute)
qed

text \<open>
  C8 (amended): \<^verbatim>\<open>reverse(reverse(n)) = n\<close> for every node value, and
  \<^verbatim>\<open>is_reverse(encode(id, rev)) = rev\<close> for every identifier and flag; the identifier
  round-trips, \<^verbatim>\<open>id(encode(id, rev)) = id\<close>, for every identifier below \<open>2^63\<close>.
\<close>

theorem Node_round_trip:
  "Node_reverse (Node_reverse n) = n \<and>
   Node_is_reverse (Node_encode i reversed) = reversed \<and>
   (i < 2 ^ 63 \<longrightarrow> Node_id (Node_encode i reversed) = i)"
  by (simp add: Node_reverse_twice Node_is_reverse_encode Node_id_encode)

theorem Node_round_trip_witness:
  "(3 :: size_type) < 2 ^ 63 \<and> Node_encode 3 True = 7 \<and> Node_id (Node_encode 3 True) = 3 \<and>
   Node_is_reverse (Node_encode 3 True) \<and> Node_reverse (Node_reverse 6) = 6"
proof -
  have small: "(3 :: size_type) < 2 ^ 63" by simp
  have enc: "Node_encode 3 True = 7" by (simp add: Node_encode_def ID_SHIFT_def)
  show ?thesis
    using Node_round_trip [of 6 3 True] small enc by simp
qed

section \<open>Searching: \<^verbatim>\<open>extend\<close>, \<^verbatim>\<open>find\<close>, \<^verbatim>\<open>prefix\<close>\<close>

lemma Range_empty_default: "Range_empty (state_range SearchState_default)"
  by (simp add: SearchState_default_def Range_empty_def Range_empty_range_def)

lemma extend_on_empty: "Range_empty (state_range st) \<Longrightarrow> extend index st xs = st"
  by (cases xs) simp_all

lemma extend_append: "extend index st (xs @ ys) = extend index (extend index st xs) ys"
proof (induction xs arbitrary: st)
  case Nil
  show ?case by simp
next
  case (Cons x xs)
  show ?case
    using Cons.IH by (simp add: extend_on_empty Range_empty_default)
qed

lemma extend_absent:
  "x \<in> set xs \<Longrightarrow> \<not> contains index x \<Longrightarrow> Range_empty (state_range (extend index st xs))"
proof (induction xs arbitrary: st)
  case Nil
  then show ?case by simp
next
  case (Cons y ys)
  show ?case
  proof (cases "Range_empty (state_range st) \<or> \<not> contains index y")
    case True
    then show ?thesis by (auto simp: Range_empty_default)
  next
    case False
    then have "x \<in> set ys" using Cons.prems by auto
    then show ?thesis using False Cons.IH Cons.prems(2) by simp
  qed
qed

lemma toy_contains: "contains toy_index n \<longleftrightarrow> n = 0 \<or> (1 < n \<and> n < 6)"
  by (simp add: toy_index_def)

lemma toy_count:
  "count toy_index n = (if n = 0 \<or> n = 2 then 2 else if n = 4 \<or> n = 5 then 1 else 0)"
  by (simp add: toy_index_def)

lemma toy_LF_state_simp: "LF_state toy_index = toy_LF_state"
  by (simp add: toy_index_def)

text \<open>
  C3: splitting a pattern and continuing the search is the same as searching the whole
  pattern at once. For every index, every non-empty pattern and every continuation,
  \<^verbatim>\<open>extend(index, find(index, pattern), rest) = find(index, pattern + rest)\<close>; the
  patterns \<open>[a, b]\<close> and \<open>[c, d]\<close> are an instance, and the cases of an absent symbol
  and of a range that becomes empty are included.
\<close>

theorem extend_find_split:
  "pattern \<noteq> [] \<Longrightarrow>
   extend index (find_pattern index pattern) rest = find_pattern index (pattern @ rest)"
proof (cases pattern)
  case Nil
  assume "pattern \<noteq> []"
  with Nil show ?thesis by simp
next
  case (Cons x xs)
  show ?thesis
    by (simp add: Cons find_pattern_def extend_append extend_on_empty Range_empty_default)
qed

theorem extend_find_split_witness:
  "[2, 4] \<noteq> ([] :: node_type list) \<and>
   extend toy_index (find_pattern toy_index [2, 4]) [0, 2] = find_pattern toy_index [2, 4, 0, 2] \<and>
   find_pattern toy_index [2, 4, 0, 2] = \<lparr> state_node = 2, state_range = (0, 0) \<rparr>"
proof -
  have ne: "[2, 4] \<noteq> ([] :: node_type list)" by simp
  have val: "find_pattern toy_index [2, 4, 0, 2] = \<lparr> state_node = 2, state_range = (0, 0) \<rparr>"
    by (simp add: find_pattern_def toy_contains toy_count toy_LF_state_simp toy_LF_state_def
        SearchState_of_def Range_empty_def)
  show ?thesis
    using extend_find_split [OF ne, of toy_index "[0, 2]"] ne val by simp
qed

text \<open>
  C5: for every index and every pattern that contains a symbol \<open>x\<close> with
  \<^verbatim>\<open>contains(x)\<close> false, \<^verbatim>\<open>find\<close> returns a state whose range is empty, wherever the
  absent symbol stands and whether or not the range became empty before it.
\<close>

theorem find_absent_symbol:
  "x \<in> set pattern \<Longrightarrow> \<not> contains index x \<Longrightarrow> SearchState_empty (find_pattern index pattern)"
proof (cases pattern)
  case Nil
  assume "x \<in> set pattern"
  with Nil show ?thesis by simp
next
  case (Cons y ys)
  assume x: "x \<in> set pattern" and absent: "\<not> contains index x"
  show ?thesis
  proof (cases "contains index y")
    case False
    then show ?thesis
      by (simp add: Cons find_pattern_def SearchState_empty_def Range_empty_default)
  next
    case True
    then have "x \<in> set ys" using x absent Cons by auto
    then show ?thesis
      using True absent by (simp add: Cons find_pattern_def SearchState_empty_def extend_absent)
  qed
qed

theorem find_absent_symbol_witness:
  "7 \<in> set [2, 7, 4 :: node_type] \<and> \<not> contains toy_index 7 \<and>
   SearchState_empty (find_pattern toy_index [2, 7, 4])"
proof -
  have mem: "7 \<in> set [2, 7, 4 :: node_type]" by simp
  have absent: "\<not> contains toy_index 7" by (simp add: toy_contains)
  show ?thesis
    using find_absent_symbol [OF mem absent] mem absent by simp
qed

text \<open>
  C7: for every index, \<^verbatim>\<open>prefix\<close> of the empty pattern returns the end-marker node with
  the range \<open>[0, sequences() - 1]\<close>, the subtraction being that of the code (64-bit
  unsigned), also when \<^verbatim>\<open>sequences()\<close> is 0.
\<close>

theorem prefix_empty_pattern:
  "prefix index [] = \<lparr> state_node = ENDMARKER, state_range = (0, sequences index - 1) \<rparr>"
  by (simp add: prefix_def SearchState_of_def)

theorem prefix_empty_pattern_witness:
  "prefix toy_index [] = \<lparr> state_node = 0, state_range = (0, 1) \<rparr>"
  using prefix_empty_pattern [of toy_index] by (simp add: toy_index_def ENDMARKER_def)

text \<open>
  C10 (counterexample): node 3 is in the small index and its record is empty.
  \<^verbatim>\<open>find(index, [3])\<close> is the state \<open>(3, [0, 2^64 - 1])\<close>, and that state is empty, not
  non-empty: its range is the wrapped form of \<open>[0, -1]\<close>. Likewise \<^verbatim>\<open>prefix\<close> of the
  empty pattern on the index without sequences is the empty state
  \<open>(ENDMARKER, [0, 2^64 - 1])\<close>.
\<close>

theorem seed_range_nonempty_counterexample:
  "contains toy_index 3 \<and> count toy_index 3 = 0 \<and>
   find_pattern toy_index [3] = \<lparr> state_node = 3, state_range = (0, - 1) \<rparr> \<and>
   SearchState_empty (find_pattern toy_index [3]) \<and>
   sequences empty_index = 0 \<and>
   prefix empty_index [] = \<lparr> state_node = 0, state_range = (0, - 1) \<rparr> \<and>
   SearchState_empty (prefix empty_index [])"
  by (simp add: find_pattern_def prefix_def SearchState_of_def SearchState_empty_def
      Range_empty_def toy_contains toy_count empty_index_def ENDMARKER_def)

text \<open>
  C10 (amended): the seed ranges are computed as \<open>[0, n - 1]\<close> with 64-bit unsigned
  subtraction. For a node \<open>x\<close> that the index contains and whose record is empty,
  \<^verbatim>\<open>find(index, [x])\<close> is the state \<open>(x, [0, 2^64 - 1])\<close>, and this state is empty; on
  an index without sequences, \<^verbatim>\<open>prefix\<close> of the empty pattern is
  \<open>(ENDMARKER, [0, 2^64 - 1])\<close>, an empty state too.
\<close>

theorem seed_range_wraps_to_empty:
  "(contains index x \<and> count index x = 0 \<longrightarrow>
      find_pattern index [x] = \<lparr> state_node = x, state_range = (0, - 1) \<rparr> \<and>
      SearchState_empty (find_pattern index [x])) \<and>
   (sequences index = 0 \<longrightarrow>
      prefix index [] = \<lparr> state_node = ENDMARKER, state_range = (0, - 1) \<rparr> \<and>
      SearchState_empty (prefix index [])) \<and>
   unat (- 1 :: size_type) = 2 ^ 64 - 1"
  by (simp add: find_pattern_def prefix_def SearchState_of_def SearchState_empty_def
      Range_empty_def unsigned_minus_1_eq_mask mask_eq_exp_minus_1)

theorem seed_range_wraps_to_empty_witness:
  "contains toy_index 3 \<and> count toy_index 3 = 0 \<and>
   find_pattern toy_index [3] = \<lparr> state_node = 3, state_range = (0, - 1) \<rparr> \<and>
   SearchState_empty (find_pattern toy_index [3]) \<and>
   sequences empty_index = 0 \<and>
   prefix empty_index [] = \<lparr> state_node = ENDMARKER, state_range = (0, - 1) \<rparr> \<and>
   SearchState_empty (prefix empty_index [])"
proof -
  have a: "contains toy_index 3 \<and> count toy_index 3 = 0"
    by (simp add: toy_contains toy_count)
  have b: "sequences empty_index = 0"
    by (simp add: empty_index_def)
  show ?thesis
    using seed_range_wraps_to_empty [of toy_index 3] seed_range_wraps_to_empty [of empty_index 3]
      a b
    by blast
qed

text \<open>
  C9: the two failure modes of \<^verbatim>\<open>extend\<close> return different states. Let the loop reach
  the symbol \<open>x\<close> with a range that is not empty (the symbols \<open>ps\<close> before it were all
  matched). If \<^verbatim>\<open>contains(x)\<close> is false, the result is the default \<^verbatim>\<open>SearchState\<close>:
  node 0, the end-marker, with an empty range. If \<open>x\<close> is contained and \<^verbatim>\<open>LF\<close> yields
  an empty range, the result keeps the node \<open>x\<close> with that empty range. Both results
  are empty states.
\<close>

theorem extend_failure_modes:
  "\<not> Range_empty (state_range (extend index state ps)) \<Longrightarrow>
   (\<not> contains index x \<longrightarrow>
      extend index state (ps @ x # ys) = SearchState_default \<and>
      state_node SearchState_default = ENDMARKER \<and>
      SearchState_empty SearchState_default) \<and>
   (contains index x \<and> Range_empty (LF_state index (extend index state ps) x) \<longrightarrow>
      extend index state (ps @ x # ys) =
        \<lparr> state_node = x, state_range = LF_state index (extend index state ps) x \<rparr> \<and>
      SearchState_empty (extend index state (ps @ x # ys)))"
  by (simp add: extend_append extend_on_empty SearchState_empty_def Range_empty_default)
     (simp add: SearchState_default_def ENDMARKER_def)

theorem extend_failure_modes_witness:
  "\<not> Range_empty (state_range (extend toy_index (SearchState_of 0 0 1) [2])) \<and>
   \<not> contains toy_index 7 \<and>
   extend toy_index (SearchState_of 0 0 1) [2, 7, 4] = \<lparr> state_node = 0, state_range = (1, 0) \<rparr> \<and>
   contains toy_index 3 \<and>
   Range_empty (LF_state toy_index (extend toy_index (SearchState_of 0 0 1) [2]) 3) \<and>
   extend toy_index (SearchState_of 0 0 1) [2, 3, 4] = \<lparr> state_node = 3, state_range = (1, 0) \<rparr>"
proof -
  let ?seed = "SearchState_of 0 0 1"
  have st: "extend toy_index ?seed [2] = \<lparr> state_node = 2, state_range = (0, 1) \<rparr>"
    by (simp add: toy_contains toy_LF_state_simp toy_LF_state_def SearchState_of_def Range_empty_def)
  have ne: "\<not> Range_empty (state_range (extend toy_index ?seed [2]))"
    unfolding st by (simp add: Range_empty_def)
  have lf: "LF_state toy_index \<lparr> state_node = 2, state_range = (0, 1) \<rparr> 3 = (1, 0)"
    by (simp add: toy_LF_state_simp toy_LF_state_def Range_empty_def Range_empty_range_def)
  have absent: "\<not> contains toy_index 7" and present: "contains toy_index 3"
    by (simp_all add: toy_contains)
  have emp: "Range_empty (LF_state toy_index (extend toy_index ?seed [2]) 3)"
    unfolding st lf by (simp add: Range_empty_def)
  have "extend toy_index ?seed ([2] @ 7 # [4]) = SearchState_default"
    using extend_failure_modes [OF ne, of 7 "[4]"] absent by blast
  then have r1: "extend toy_index ?seed [2, 7, 4] = \<lparr> state_node = 0, state_range = (1, 0) \<rparr>"
    by (simp only: append.simps SearchState_default_def Range_empty_range_def)
  have "extend toy_index ?seed ([2] @ 3 # [4]) =
          \<lparr> state_node = 3, state_range = LF_state toy_index (extend toy_index ?seed [2]) 3 \<rparr>"
    using extend_failure_modes [OF ne, of 3 "[4]"] present emp by blast
  then have r2: "extend toy_index ?seed [2, 3, 4] = \<lparr> state_node = 3, state_range = (1, 0) \<rparr>"
    by (simp only: append.simps st lf)
  show ?thesis
    using ne absent r1 present emp r2 by blast
qed

section \<open>Walking the index: \<^verbatim>\<open>locate\<close> and \<^verbatim>\<open>extract\<close>\<close>

lemma upt_shift: "map f [0..<Suc n] = f 0 # map (\<lambda>k. f (Suc k)) [0..<n]"
proof -
  have "[0..<Suc n] = 0 # map Suc [0..<n]"
    by (simp only: map_Suc_upt upt_conv_Cons [of 0 "Suc n"])
  then show ?thesis by (simp add: comp_def del: upt_Suc)
qed

lemma extract_loop_walk:
  "fst ((LF index ^^ n) position) = ENDMARKER \<Longrightarrow>
   (\<forall>k<n. fst ((LF index ^^ k) position) \<noteq> ENDMARKER) \<Longrightarrow>
   extract_loop index position result =
     Some (result @ map (\<lambda>k. fst ((LF index ^^ k) position)) [0..<n])"
proof (induction n arbitrary: position result)
  case 0
  then show ?case by (subst extract_loop.simps) simp
next
  case (Suc n)
  have here: "fst position \<noteq> ENDMARKER"
    using Suc.prems(2) by (metis funpow_0 zero_less_Suc)
  have rest: "\<forall>k<n. fst ((LF index ^^ k) (LF index position)) \<noteq> ENDMARKER"
    using Suc.prems(2) by (metis Suc_less_eq funpow_Suc_right o_apply)
  have last: "fst ((LF index ^^ n) (LF index position)) = ENDMARKER"
    using Suc.prems(1) by (simp add: funpow_Suc_right del: funpow.simps)
  have "extract_loop index (LF index position) (result @ [fst position]) =
          Some ((result @ [fst position]) @
                map (\<lambda>k. fst ((LF index ^^ k) (LF index position))) [0..<n])"
    using last rest by (rule Suc.IH)
  then show ?case
    using here
    by (subst extract_loop.simps) (simp add: upt_shift funpow_Suc_right del: funpow.simps upt_Suc)
qed

lemma locate_loop_steps:
  "tryLocate index ((LF index ^^ n) position) \<noteq> invalid_sequence \<Longrightarrow>
   (\<forall>k<n. tryLocate index ((LF index ^^ k) position) = invalid_sequence) \<Longrightarrow>
   locate_loop index position = Some (tryLocate index ((LF index ^^ n) position))"
proof (induction n arbitrary: position)
  case 0
  then show ?case by (subst locate_loop.simps) simp
next
  case (Suc n)
  have here: "tryLocate index position = invalid_sequence"
    using Suc.prems(2) by (metis funpow_0 zero_less_Suc)
  have rest: "\<forall>k<n. tryLocate index ((LF index ^^ k) (LF index position)) = invalid_sequence"
    using Suc.prems(2) by (metis Suc_less_eq funpow_Suc_right o_apply)
  have "locate_loop index (LF index position) =
          Some (tryLocate index ((LF index ^^ n) (LF index position)))"
    using Suc.prems(1) rest by (intro Suc.IH) (simp_all add: funpow_Suc_right del: funpow.simps)
  then show ?case
    using here by (subst locate_loop.simps) (simp add: funpow_Suc_right del: funpow.simps)
qed

text \<open>Whatever the loop of \<^verbatim>\<open>locate\<close> returns is a sample it met on the walk.\<close>

lemma locate_loop_result:
  "locate_loop index position = Some y \<Longrightarrow>
   \<exists>n. y = tryLocate index ((LF index ^^ n) position) \<and> y \<noteq> invalid_sequence"
proof (induction rule: locate_loop.raw_induct [rotated 1, consumes 1, case_names step])
  case (step loop index position y)
  show ?case
  proof (cases "tryLocate index position \<noteq> invalid_sequence")
    case True
    then have "y = tryLocate index ((LF index ^^ 0) position) \<and> y \<noteq> invalid_sequence"
      using step(2) by auto
    then show ?thesis by (rule exI)
  next
    case False
    then have "loop index (LF index position) = Some y"
      using step(2) by simp
    from step(1) [OF this]
    obtain n where n: "y = tryLocate index ((LF index ^^ n) (LF index position))"
      and y: "y \<noteq> invalid_sequence" by auto
    have "y = tryLocate index ((LF index ^^ Suc n) position) \<and> y \<noteq> invalid_sequence"
      using n y by (simp add: funpow_Suc_right del: funpow.simps)
    then show ?thesis by (rule exI)
  qed
qed

text \<open>
  Once the node of the position is in the index, \<^verbatim>\<open>locate\<close> has no way of returning
  \<^verbatim>\<open>invalid_sequence()\<close>: the loop only returns a result different from it.
\<close>

lemma locate_contained_never_invalid:
  "contains index (fst position) \<Longrightarrow> locate index position \<noteq> Some invalid_sequence"
  using locate_loop_result [of index position invalid_sequence] by (auto simp: locate_def)

lemma locate_loop_never_sampled:
  "(\<And>n. tryLocate index ((LF index ^^ n) position) = invalid_sequence) \<Longrightarrow>
   locate_loop index position = None"
  using locate_loop_result [of index position] by (cases "locate_loop index position") auto

subsection \<open>The small index\<close>

lemma word_less_2: "(s :: size_type) < 2 \<Longrightarrow> s = 0 \<or> s = 1"
  by unat_arith

lemma toy_path0:
  "path_position toy_index 0 0 = (2, 0)"
  "path_position toy_index 0 (Suc 0) = (4, 0)"
  "path_position toy_index 0 (Suc (Suc 0)) = (0, 0)"
  by (simp_all add: path_position_def toy_index_def toy_LF_def)

lemma toy_path1:
  "path_position toy_index 1 0 = (2, 1)"
  "path_position toy_index 1 (Suc 0) = (5, 0)"
  "path_position toy_index 1 (Suc (Suc 0)) = (0, 0)"
  by (simp_all add: path_position_def toy_index_def toy_LF_def)

lemma on_body_before_endmarker:
  "on_body index s k \<Longrightarrow> fst (path_position index s m) = ENDMARKER \<Longrightarrow> k < m"
  unfolding on_body_def by (meson not_le_imp_less)

lemma toy_on_body:
  assumes "on_body toy_index s k"
  shows "(s = 0 \<or> s = 1) \<and> (k = 0 \<or> k = Suc 0)"
proof -
  have "s < 2" using assms by (simp add: on_body_def toy_index_def)
  then have s: "s = 0 \<or> s = 1" by (rule word_less_2)
  then have "fst (path_position toy_index s (Suc (Suc 0))) = ENDMARKER"
    by (auto simp: toy_path0 toy_path1 ENDMARKER_def)
  with assms have "k < Suc (Suc 0)" by (rule on_body_before_endmarker)
  then show ?thesis using s by auto
qed

lemma toy_on_body_intro:
  "on_body toy_index 0 0" "on_body toy_index 0 (Suc 0)"
  "on_body toy_index 1 0" "on_body toy_index 1 (Suc 0)"
  by (auto simp: on_body_def le_Suc_eq toy_path0 toy_path1 ENDMARKER_def) 
     (simp_all add: toy_index_def)

lemma toy_tryLocate:
  "tryLocate toy_index p =
     (if p = (4, 0) then 0 else if p = (5, 0) then 1 else invalid_sequence)"
  by (simp add: toy_index_def)

lemma toy_samples_correct: "samples_correct toy_index"
  unfolding samples_correct_def
proof (intro allI impI)
  fix s k
  assume a: "on_body toy_index s k \<and>
             tryLocate toy_index (path_position toy_index s k) \<noteq> invalid_sequence"
  then have "(s = 0 \<or> s = 1) \<and> (k = 0 \<or> k = Suc 0)" using toy_on_body by blast
  then show "tryLocate toy_index (path_position toy_index s k) = s"
    using a by (auto simp: toy_path0 toy_path1 toy_tryLocate)
qed

lemma start_sampled_path:
  "path_position toy_index_start_sampled s k = path_position toy_index s k"
  by (simp add: path_position_def toy_index_start_sampled_def)

lemma start_sampled_on_body: "on_body toy_index_start_sampled s k = on_body toy_index s k"
  by (simp add: on_body_def start_sampled_path) (simp add: toy_index_start_sampled_def)

lemma start_sampled_tryLocate:
  "tryLocate toy_index_start_sampled p =
     (if p = (2, 0) then 0 else if p = (2, 1) then 1 else invalid_sequence)"
  by (simp add: toy_index_start_sampled_def)

text \<open>
  C4: \<^verbatim>\<open>extract\<close> returns the empty vector when \<open>seq_id \<ge> sequences()\<close> and when
  \<^verbatim>\<open>start(seq_id)\<close> is the invalid edge. Otherwise, when the walk from
  \<^verbatim>\<open>start(seq_id)\<close> by \<^verbatim>\<open>LF\<close> reaches the end-marker for the first time after
  \<open>n\<close> steps, \<^verbatim>\<open>extract\<close> returns the nodes of the \<open>n\<close> positions visited before
  it, in order.
\<close>

theorem extract_path_walk:
  "(sequences index \<le> s \<longrightarrow> extract_path index s = Some []) \<and>
   (s < sequences index \<and> start index s = invalid_edge \<longrightarrow> extract_path index s = Some []) \<and>
   (s < sequences index \<and> start index s \<noteq> invalid_edge \<and>
    fst (path_position index s n) = ENDMARKER \<and>
    (\<forall>k<n. fst (path_position index s k) \<noteq> ENDMARKER) \<longrightarrow>
      extract_path index s = Some (map (\<lambda>k. fst (path_position index s k)) [0..<n]))"
  using extract_loop_walk [where index = index and n = n and position = "start index s"
      and result = "[]"]
  by (auto simp: extract_path_def path_position_def)

theorem extract_path_walk_witness:
  "sequences toy_index \<le> 2 \<and> extract_path toy_index 2 = Some [] \<and>
   0 < sequences (toy_index \<lparr> start := \<lambda>s. invalid_edge \<rparr>) \<and>
   start (toy_index \<lparr> start := \<lambda>s. invalid_edge \<rparr>) 0 = invalid_edge \<and>
   extract_path (toy_index \<lparr> start := \<lambda>s. invalid_edge \<rparr>) 0 = Some [] \<and>
   1 < sequences toy_index \<and> start toy_index 1 \<noteq> invalid_edge \<and>
   fst (path_position toy_index 1 2) = ENDMARKER \<and>
   fst (path_position toy_index 1 0) \<noteq> ENDMARKER \<and>
   fst (path_position toy_index 1 1) \<noteq> ENDMARKER \<and>
   extract_path toy_index 1 = Some [2, 5]"
proof -
  let ?no_start = "toy_index \<lparr> start := \<lambda>s. invalid_edge \<rparr>"
  have two: "(2 :: nat) = Suc (Suc 0)" by simp
  have a: "sequences toy_index \<le> 2" by (simp add: toy_index_def)
  have b: "0 < sequences ?no_start \<and> start ?no_start 0 = invalid_edge"
    by (simp add: toy_index_def)
  have c: "1 < sequences toy_index \<and> start toy_index 1 \<noteq> invalid_edge"
    by (simp add: toy_index_def invalid_edge_def ENDMARKER_def)
  have d: "fst (path_position toy_index 1 2) = ENDMARKER"
    unfolding two by (simp add: toy_path1 ENDMARKER_def)
  have e: "\<forall>k<2. fst (path_position toy_index 1 k) \<noteq> ENDMARKER"
    unfolding two by (auto simp: less_Suc_eq toy_path1 ENDMARKER_def)
  have r1: "extract_path toy_index 2 = Some []"
    using extract_path_walk [of toy_index 2 0] a by blast
  have r2: "extract_path ?no_start 0 = Some []"
    using extract_path_walk [of ?no_start 0 0] b by blast
  have "extract_path toy_index 1 = Some (map (\<lambda>k. fst (path_position toy_index 1 k)) [0..<2])"
    using extract_path_walk [of toy_index 1 2] c d e by blast
  then have r3: "extract_path toy_index 1 = Some [2, 5]"
    unfolding two by (simp add: toy_path1)
  have f: "fst (path_position toy_index 1 0) \<noteq> ENDMARKER"
    "fst (path_position toy_index 1 1) \<noteq> ENDMARKER"
    by (simp_all add: toy_path1 ENDMARKER_def)
  show ?thesis
    using a b c d f r1 r2 r3 by blast
qed

text \<open>
  C6 (the code at the failing input): the node 2 is in the small index and its record has
  two rows, so the row 5 is out of range. \<^verbatim>\<open>locate\<close> finds no sample there, steps to the
  invalid edge and stays on it: it never returns, where the claim has it return
  \<^verbatim>\<open>invalid_sequence()\<close>.
\<close>

theorem locate_out_of_range_row:
  "contains toy_index 2 \<and> \<not> 5 < count toy_index 2 \<and> locate toy_index (2, 5) = None \<and>
   locate toy_index (2, 5) \<noteq> Some invalid_sequence"
proof -
  have walk: "(LF toy_index ^^ n) (2, 5) = (if n = 0 then (2, 5) else invalid_edge)" for n
    by (induction n)
       (simp_all add: toy_index_def toy_LF_def invalid_edge_def ENDMARKER_def invalid_offset_def)
  have "tryLocate toy_index ((LF toy_index ^^ n) (2, 5)) = invalid_sequence" for n
    unfolding walk
    by (simp add: toy_tryLocate invalid_edge_def ENDMARKER_def invalid_offset_def)
  then have "locate_loop toy_index (2, 5) = None"
    by (rule locate_loop_never_sampled)
  then show ?thesis
    by (simp add: locate_def toy_contains toy_count)
qed

text \<open>
  C2 (counterexample): in the index of the paths \<open>[2, 4]\<close> and \<open>[2, 5]\<close> whose samples
  stand at the first cell of each path, every sequence has a sample along its body and
  \<open>(5, 0)\<close> is a valid position on the path of sequence 1 only. \<^verbatim>\<open>locate\<close> walks from
  it through the end-marker record into the path of sequence 0 and returns 0.
\<close>

theorem locate_start_sampled_counterexample:
  "every_sequence_sampled toy_index_start_sampled \<and>
   valid_position toy_index_start_sampled (5, 0) \<and>
   passes_through toy_index_start_sampled 1 (5, 0) \<and>
   \<not> passes_through toy_index_start_sampled 0 (5, 0) \<and>
   locate toy_index_start_sampled (5, 0) = Some 0"
proof -
  let ?I = toy_index_start_sampled
  have sampled: "sampled_along_body ?I s" if "s < sequences ?I" for s
  proof -
    have "s < 2" using that by (simp add: toy_index_start_sampled_def toy_index_def)
    then have "s = 0 \<or> s = 1" by (rule word_less_2)
    then have "on_body ?I s 0 \<and> tryLocate ?I (path_position ?I s 0) \<noteq> invalid_sequence"
      by (auto simp: start_sampled_on_body start_sampled_path start_sampled_tryLocate
          toy_on_body_intro toy_path0 toy_path1 invalid_sequence_def)
    then show ?thesis unfolding sampled_along_body_def by (rule exI)
  qed
  then have a: "every_sequence_sampled ?I"
    by (simp add: every_sequence_sampled_def)
  have b: "valid_position ?I (5, 0)"
    by (simp add: valid_position_def toy_index_start_sampled_def toy_index_def)
  have "on_body ?I 1 (Suc 0) \<and> path_position ?I 1 (Suc 0) = (5, 0)"
    by (simp add: start_sampled_on_body start_sampled_path toy_on_body_intro toy_path1)
  then have c: "passes_through ?I 1 (5, 0)"
    unfolding passes_through_def by (rule exI)
  have d: "\<not> passes_through ?I 0 (5, 0)"
  proof
    assume "passes_through ?I 0 (5, 0)"
    then obtain k where k: "on_body toy_index 0 k" and p: "path_position toy_index 0 k = (5, 0)"
      by (auto simp: passes_through_def start_sampled_on_body start_sampled_path)
    from toy_on_body [OF k] have "k = 0 \<or> k = Suc 0" by simp
    then show False using p by (auto simp: toy_path0)
  qed
  have lf: "(LF ?I ^^ Suc (Suc 0)) (5, 0) = (2, 0)" "(LF ?I ^^ Suc 0) (5, 0) = (0, 0)"
    "(LF ?I ^^ 0) (5, 0) = (5, 0)"
    by (simp_all add: toy_index_start_sampled_def toy_index_def toy_LF_def)
  have hit: "tryLocate ?I ((LF ?I ^^ Suc (Suc 0)) (5, 0)) \<noteq> invalid_sequence"
    unfolding lf by (simp add: start_sampled_tryLocate invalid_sequence_def)
  have miss: "\<forall>k<Suc (Suc 0). tryLocate ?I ((LF ?I ^^ k) (5, 0)) = invalid_sequence"
  proof (intro allI impI)
    fix k :: nat
    assume "k < Suc (Suc 0)"
    then have "k = 0 \<or> k = Suc 0" by auto
    then show "tryLocate ?I ((LF ?I ^^ k) (5, 0)) = invalid_sequence"
      using lf(2,3) by (auto simp: start_sampled_tryLocate simp del: funpow.simps)
  qed
  have "locate_loop ?I (5, 0) = Some (tryLocate ?I ((LF ?I ^^ Suc (Suc 0)) (5, 0)))"
    using hit miss by (rule locate_loop_steps)
  then have "locate_loop ?I (5, 0) = Some 0"
    unfolding lf by (simp add: start_sampled_tryLocate)
  then have e: "locate ?I (5, 0) = Some 0"
    using b by (simp add: locate_def valid_position_def)
  show ?thesis
    using a b c d e by blast
qed

text \<open>
  C2 (amended): let \<open>(node, row)\<close> be a valid position that is the cell \<open>k\<close> of the
  body of the path of sequence \<open>s\<close>, let every sample found on the body of a path carry
  the id of that path, and let the path of \<open>s\<close> have a sample at the cell \<open>k\<close> or at
  a later cell of its body (not merely somewhere along its body). Then \<^verbatim>\<open>locate\<close>
  returns, and its result is \<open>s\<close>.
\<close>

theorem locate_returns_sequence:
  assumes valid: "valid_position index position"
    and cell: "on_body index s k" "path_position index s k = position"
    and later: "on_body index s (k + n)"
      "tryLocate index (path_position index s (k + n)) \<noteq> invalid_sequence"
    and correct: "samples_correct index"
  shows "locate index position = Some s"
proof -
  have walk: "(LF index ^^ j) position = path_position index s (k + j)" for j
    using cell(2) by (simp add: path_position_def funpow_add add.commute)
  define m where "m = (LEAST j. tryLocate index ((LF index ^^ j) position) \<noteq> invalid_sequence)"
  have ex: "tryLocate index ((LF index ^^ n) position) \<noteq> invalid_sequence"
    using later(2) by (simp add: walk)
  have hit: "tryLocate index ((LF index ^^ m) position) \<noteq> invalid_sequence"
    unfolding m_def using ex by (rule LeastI)
  have miss: "\<forall>j<m. tryLocate index ((LF index ^^ j) position) = invalid_sequence"
    unfolding m_def using not_less_Least by blast
  have "m \<le> n"
    unfolding m_def using ex by (rule Least_le)
  then have "on_body index s (k + m)"
    using later(1) by (simp add: on_body_def)
  then have "tryLocate index (path_position index s (k + m)) = s"
    using hit correct by (simp add: samples_correct_def walk)
  moreover have "locate_loop index position = Some (tryLocate index ((LF index ^^ m) position))"
    using hit miss by (rule locate_loop_steps)
  ultimately show ?thesis
    using valid by (simp add: locate_def valid_position_def walk)
qed

theorem locate_returns_sequence_witness:
  "valid_position toy_index (2, 1) \<and> on_body toy_index 1 0 \<and>
   path_position toy_index 1 0 = (2, 1) \<and> on_body toy_index 1 (0 + 1) \<and>
   tryLocate toy_index (path_position toy_index 1 (0 + 1)) \<noteq> invalid_sequence \<and>
   samples_correct toy_index \<and> locate toy_index (2, 1) = Some 1"
proof -
  have valid: "valid_position toy_index (2, 1)"
    by (simp add: valid_position_def toy_contains toy_count)
  have cell: "on_body toy_index 1 0" "path_position toy_index 1 0 = (2, 1)"
    by (simp_all add: toy_on_body_intro toy_path1)
  have later: "on_body toy_index 1 (0 + 1)"
    "tryLocate toy_index (path_position toy_index 1 (0 + 1)) \<noteq> invalid_sequence"
    by (simp_all add: toy_on_body_intro toy_path1 toy_tryLocate invalid_sequence_def)
  show ?thesis
    using locate_returns_sequence [OF valid cell later toy_samples_correct]
      valid cell later toy_samples_correct
    by blast
qed

section \<open>Compressed records\<close>

subsection \<open>The variable-byte code\<close>

lemma bit_128_int: "bit (128 :: int) n \<longleftrightarrow> n = 7"
proof -
  have "bit (2 ^ 7 :: int) n \<longleftrightarrow> n = 7"
    by (simp only: bit_exp_iff) auto
  then show ?thesis by simp
qed

lemma bit_127_int: "bit (127 :: int) n \<longleftrightarrow> n < 7"
proof -
  have "bit (mask 7 :: int) n \<longleftrightarrow> n < 7"
    by (simp only: bit_mask_iff) auto
  then show ?thesis by (simp add: mask_eq_exp_minus_1)
qed

lemma le_127_bits:
  fixes v :: size_type
  assumes "v \<le> 127" and "bit v n"
  shows "n < 7"
proof -
  have "v < 2 ^ 7" using assms(1) by unat_arith
  then have "v AND mask 7 = v" by (rule less_mask_eq)
  then have "bit (v AND mask 7) n" using assms(2) by simp
  then show ?thesis by (simp add: bit_and_iff bit_mask_iff)
qed

lemma last_byte:
  fixes v :: size_type
  assumes "v \<le> 127"
  shows "(ucast v :: byte_type) AND 128 = 0" and "ucast (ucast v :: byte_type) = v"
proof -
  show "(ucast v :: byte_type) AND 128 = 0"
    by (rule bit_eqI) (auto simp: bit_simps bit_128_int dest: le_127_bits [OF assms])
  show "ucast (ucast v :: byte_type) = v"
    by (rule bit_eqI) (auto simp: bit_simps dest: le_127_bits [OF assms])
qed

lemma next_byte_flag:
  fixes v :: size_type
  shows "(ucast (v AND 127) OR 128 :: byte_type) AND 128 \<noteq> 0"
proof -
  have "bit ((ucast (v AND 127) OR 128 :: byte_type) AND 128) 7"
    by (simp add: bit_simps bit_128_int)
  then show ?thesis by auto
qed

lemma next_byte_data:
  fixes v :: size_type
  shows "(ucast ((ucast (v AND 127) OR 128 :: byte_type) AND 127) :: size_type) = v AND 127"
  by (rule bit_eqI) (auto simp: bit_simps bit_128_int bit_127_int)

lemma split_low_bits:
  fixes v :: size_type
  shows "(v AND 127) + push_bit 7 (drop_bit 7 v) = v"
proof -
  have "(127 :: size_type) = mask 7" by (simp add: mask_eq_exp_minus_1)
  then show ?thesis by (metis add.commute bits_ident take_bit_eq_mask)
qed

lemma ByteCode_round_trip: "ByteCode_read (ByteCode_write v @ rest) = Some (v, rest)"
proof (induction v rule: ByteCode_write.induct)
  case (1 v)
  show ?case
  proof (cases "v \<le> 127")
    case True
    then show ?thesis
      using last_byte [OF True] by (subst ByteCode_write.simps) simp
  next
    case False
    show ?thesis
      using 1 [OF False] False
      by (subst ByteCode_write.simps) (simp add: next_byte_flag next_byte_data split_low_bits)
  qed
qed

lemma ByteCode_write_not_Nil: "ByteCode_write v \<noteq> []"
  by (subst ByteCode_write.simps) simp

subsection \<open>The run code\<close>

lemma joint_code_bound:
  fixes r s q c :: nat
  assumes "r < s" and "q < c" and "c = 256 div s"
  shows "r + s * q < 256"
proof -
  have "r + s * q < s * (q + 1)" using assms(1) by simp
  also have "\<dots> \<le> s * c" using assms(2) by (intro mult_le_mono2) simp
  also have "\<dots> \<le> 256" unfolding assms(3) by simp
  finally show ?thesis .
qed

lemma unat_joint_code:
  assumes "r < sigma" and "l < Run_continues sigma"
  shows "unat (joint_code sigma r l) = unat r + unat sigma * l"
proof -
  have "unat r < unat sigma" using assms(1) by (simp add: word_less_nat_alt)
  then have "unat r + unat sigma * l < 256"
    using assms(2) by (intro joint_code_bound [where c = "Run_continues sigma"])
      (simp_all add: Run_continues_def)
  then show ?thesis
    unfolding joint_code_def by (simp only: unat_of_nat) simp
qed

lemma Run_round_trip:
  assumes sigma: "sigma \<noteq> 0" and r: "r < sigma" and len: "len \<noteq> 0"
  shows "Run_read sigma (Run_write sigma (r, len) @ rest) = Some ((r, len), rest)"
proof (cases "255 \<le> sigma")
  case True
  then show ?thesis
    by (simp add: Run_read_def Run_write_def ByteCode_round_trip)
next
  case False
  let ?s = "unat sigma" and ?c = "Run_continues sigma"
  have s_pos: "0 < ?s" using sigma by (simp add: unat_gt_0)
  have s_small: "?s < 255" using False by (simp add: word_le_nat_alt)
  have r_less: "unat r < ?s" using r by (simp add: word_less_nat_alt)
  have len_pos: "0 < unat len" using len by (simp add: unat_gt_0)
  have c_pos: "0 < ?c"
    unfolding Run_continues_def using s_pos s_small by (simp add: div_greater_zero_iff)
  have m': "unat r mod ?s = unat r" using r_less by simp
  obtain l where l: "unat len = Suc l"
    using len_pos by (cases "unat len") auto
  have "of_nat (unat len) = len" by simp
  then have len_eq: "len = of_nat (Suc l)"
    by (simp only: l)
  show ?thesis
  proof (cases "unat len < ?c")
    case True
    have wr: "Run_write sigma (r, len) = [joint_code sigma r l]"
      using True False by (simp add: Run_write_def l)
    have "l < ?c" using True l by simp
    then have b: "unat (joint_code sigma r l) = unat r + ?s * l"
      using r by (intro unat_joint_code)
    have m: "(unat r + ?s * l) mod ?s = unat r" using r_less by simp
    have d: "(unat r + ?s * l) div ?s = l" using r_less s_pos by simp
    have "Run_read sigma (joint_code sigma r l # rest) = Some ((r, of_nat (Suc l)), rest)"
      using True False l by (simp add: Run_read_def Let_def b m m' d)
    then have "Run_read sigma (joint_code sigma r l # rest) = Some ((r, len), rest)"
      by (simp only: len_eq [symmetric])
    then show ?thesis
      unfolding wr by simp
  next
    case long: False
    obtain c where c: "?c = Suc c"
      using c_pos by (cases ?c) auto
    have wr: "Run_write sigma (r, len) =
                joint_code sigma r c # ByteCode_write (len - of_nat (Suc c))"
      using long False by (simp add: Run_write_def c)
    have "c < ?c" using c by simp
    then have b: "unat (joint_code sigma r c) = unat r + ?s * c"
      using r by (intro unat_joint_code)
    have m: "(unat r + ?s * c) mod ?s = unat r" using r_less by simp
    have d: "(unat r + ?s * c) div ?s = c" using r_less s_pos by simp
    have "Run_read sigma (joint_code sigma r c # ByteCode_write (len - of_nat (Suc c)) @ rest) =
            Some ((r, of_nat (Suc c) + (len - of_nat (Suc c))), rest)"
      using False c by (simp add: Run_read_def Let_def b m m' d ByteCode_round_trip)
    then show ?thesis
      unfolding wr by simp
  qed
qed

lemma Run_write_not_Nil: "Run_write sigma run \<noteq> []"
  by (simp add: Run_write_def Let_def ByteCode_write_not_Nil)

lemma read_runs_round_trip:
  assumes "sigma \<noteq> 0" and "list_all (\<lambda>run. fst run < sigma \<and> snd run \<noteq> 0) runs"
  shows "read_runs sigma (write_body sigma runs) = Some runs"
  using assms(2)
proof (induction runs)
  case Nil
  show ?case by (subst read_runs.simps) (simp add: write_body_def)
next
  case (Cons run runs)
  obtain r len where run: "run = (r, len)" by (cases run)
  have ok: "r < sigma" "len \<noteq> 0" using Cons.prems run by simp_all
  have rest: "read_runs sigma (write_body sigma runs) = Some runs"
    using Cons by simp
  have bytes: "write_body sigma (run # runs) = Run_write sigma (r, len) @ write_body sigma runs"
    by (simp add: write_body_def run)
  show ?case
    unfolding bytes
    by (subst read_runs.simps)
       (simp add: Run_write_not_Nil Run_round_trip [OF assms(1) ok] rest run)
qed

subsection \<open>The outgoing header\<close>

lemma read_edges_round_trip:
  "read_edges (length es) prev (write_edges prev es @ rest) = Some (es, rest)"
proof (induction es arbitrary: prev)
  case Nil
  show ?case by simp
next
  case (Cons e es)
  show ?case
    using Cons.IH [of "fst e"] by (simp add: ByteCode_round_trip)
qed

subsection \<open>The scans and the expanded body\<close>

lemma expand_body_Nil: "expand_body [] = []"
  by (simp add: expand_body_def)

lemma expand_body_Cons:
  "expand_body (run # runs) = replicate (unat (snd run)) (fst run) @ expand_body runs"
  by (simp add: expand_body_def case_prod_beta)

lemma length_expand_body:
  "length (expand_body runs) = sum_list (map (\<lambda>run. unat (snd run)) runs)"
  by (induction runs) (simp_all add: expand_body_Nil expand_body_Cons)

lemma count_in_Nil: "count_in P [] sp e = 0"
  by (simp add: count_in_def)

lemma count_in_zero: "count_in P syms sp 0 = 0"
  by (simp add: count_in_def)

lemma count_in_append_replicate:
  "count_in P (replicate l r @ syms) sp e =
     (if P r then min e l - sp else 0) + count_in P syms (sp - l) (e - l)"
proof (cases "l \<le> e")
  case True
  then show ?thesis
    by (simp add: count_in_def min_absorb2)
next
  case False
  then have "e - l = 0" and "min e l = e" by simp_all
  then show ?thesis
    by (simp add: count_in_def)
qed

lemma count_scan_eq: "count_scan P runs sp e = count_in P (expand_body runs) sp e"
proof (induction runs arbitrary: sp e)
  case Nil
  show ?case by (simp add: expand_body_Nil count_in_Nil)
next
  case (Cons run runs)
  show ?case
    by (simp add: Let_def expand_body_Cons count_in_append_replicate Cons.IH count_in_zero)
qed

lemma rank_in_replicate_prefix:
  "i < l \<Longrightarrow> rank_in (replicate l r @ syms) r i = i"
  by (simp add: rank_in_def count_in_def min_absorb1)

lemma rank_in_append_replicate:
  "l \<le> i \<Longrightarrow>
   rank_in (replicate l r @ syms) x i = (if x = r then l else 0) + rank_in syms x (i - l)"
  by (simp add: rank_in_def count_in_append_replicate min_absorb2)

lemma LF_scan_eq:
  "LF_scan runs i seen =
     (if i < length (expand_body runs)
      then Some (expand_body runs ! i,
                 seen (expand_body runs ! i) + rank_in (expand_body runs) (expand_body runs ! i) i)
      else None)"
proof (induction runs arbitrary: i seen)
  case Nil
  show ?case by (simp add: expand_body_Nil)
next
  case (Cons run runs)
  let ?l = "unat (snd run)" and ?r = "fst run"
  show ?case
  proof (cases "i < ?l")
    case True
    then show ?thesis
      by (simp add: Let_def expand_body_Cons nth_append rank_in_replicate_prefix)
  next
    case False
    then have le: "?l \<le> i" by simp
    then have iff: "i - ?l < length (expand_body runs) \<longleftrightarrow>
                      i < ?l + length (expand_body runs)"
      by auto
    show ?thesis
      using False le
      by (simp add: Let_def expand_body_Cons nth_append Cons.IH iff
          rank_in_append_replicate [OF le])
  qed
qed

lemma word_sum_of_unat:
  fixes ws :: "size_type list"
  shows "of_nat (sum_list (map unat ws)) = sum_list ws"
  by (induction ws) simp_all

lemma sum_run_lengths:
  "sum_list (map snd runs) =
     (of_nat (sum_list (map (\<lambda>run. unat (snd run)) runs)) :: size_type)"
  using word_sum_of_unat [of "map snd runs"] by (simp add: comp_def)

subsection \<open>Decoding what \<^verbatim>\<open>writeBWT\<close> wrote\<close>

lemma record_ok_outdegree:
  "record_ok D \<Longrightarrow> unat (DynamicRecord_outdegree D) = length (outgoing D)"
  by (simp add: record_ok_def DynamicRecord_outdegree_def unat_of_nat)

lemma record_ok_size:
  "record_ok D \<Longrightarrow> unat (body_size D) = length (expand_body (body D))"
  by (simp add: record_ok_def length_expand_body)

lemma record_ok_empty:
  assumes "record_ok D" and "DynamicRecord_outdegree D = 0"
  shows "body D = []"
proof (cases "body D")
  case Nil
  then show ?thesis .
next
  case (Cons run runs)
  then have "fst run < DynamicRecord_outdegree D"
    using assms(1) by (simp add: record_ok_def)
  then show ?thesis using assms(2) by simp
qed

lemma CompressedRecord_of_writeBWT:
  assumes "record_ok D"
  shows "CompressedRecord_of (pre @ writeBWT D @ post) (length pre)
           (length pre + length (writeBWT D)) =
         Some \<lparr> comp_outgoing = outgoing D, comp_body = body_bytes D \<rparr>"
proof -
  let ?K = "ByteCode_write (DynamicRecord_outdegree D)"
  let ?E = "write_edges 0 (outgoing D)"
  let ?B = "body_bytes D"
  have w: "writeBWT D = ?K @ ?E @ ?B"
    by (simp add: writeBWT_def)
  have src: "drop (length pre) (pre @ writeBWT D @ post) = ?K @ (?E @ ?B @ post)"
    by (simp add: w)
  have count: "ByteCode_read (?K @ (?E @ ?B @ post)) =
                 Some (DynamicRecord_outdegree D, ?E @ ?B @ post)"
    by (rule ByteCode_round_trip)
  have edges: "read_edges (unat (DynamicRecord_outdegree D)) 0 (?E @ (?B @ post)) =
                 Some (outgoing D, ?B @ post)"
    unfolding record_ok_outdegree [OF assms] by (rule read_edges_round_trip)
  have "length pre + length (writeBWT D) -
          (length (pre @ writeBWT D @ post) - length (?B @ post)) = length ?B"
    by (simp add: w)
  then have cut: "take (length pre + length (writeBWT D) -
                    (length (pre @ writeBWT D @ post) - length (?B @ post))) (?B @ post) = ?B"
    by simp
  show ?thesis
    unfolding CompressedRecord_of_def src count using edges cut by simp
qed

lemma runs_list_of_writeBWT:
  assumes "record_ok D"
  shows "CompressedRecord_runs_list \<lparr> comp_outgoing = outgoing D, comp_body = body_bytes D \<rparr> =
           Some (body D)"
proof (cases "DynamicRecord_outdegree D = 0")
  case True
  then show ?thesis
    using record_ok_empty [OF assms True]
    by (simp add: CompressedRecord_runs_list_def CompressedRecord_outdegree_def
        DynamicRecord_outdegree_def)
next
  case False
  then have pos: "0 < DynamicRecord_outdegree D" by (simp add: word_greater_zero_iff)
  have "read_runs (DynamicRecord_outdegree D) (write_body (DynamicRecord_outdegree D) (body D)) =
          Some (body D)"
    using False assms by (intro read_runs_round_trip) (simp_all add: record_ok_def)
  then show ?thesis
    using False pos
    by (simp add: CompressedRecord_runs_list_def CompressedRecord_outdegree_def
        DynamicRecord_outdegree_def body_bytes_def)
qed

subsection \<open>The operations agree\<close>

lemma compressed_view:
  assumes "record_ok D"
  defines "C \<equiv> \<lparr> comp_outgoing = outgoing D, comp_body = body_bytes D \<rparr>"
  shows "CompressedRecord_size C = Some (DynamicRecord_size D)"
    and "CompressedRecord_runs C = Some (DynamicRecord_runs D)"
    and "CompressedRecord_outdegree C = DynamicRecord_outdegree D"
    and "CompressedRecord_successor C r = DynamicRecord_successor D r"
    and "CompressedRecord_offset C r = DynamicRecord_offset D r"
    and "CompressedRecord_LF C i = Some (DynamicRecord_LF D i)"
    and "CompressedRecord_LF_to edgeTo C i to = Some (DynamicRecord_LF_to edgeTo D i to)"
    and "CompressedRecord_LF_range edgeTo C rng to = Some (DynamicRecord_LF_range edgeTo D rng to)"
    and "CompressedRecord_bdLF edgeTo C rng to = Some (DynamicRecord_bdLF edgeTo D rng to)"
    and "i < DynamicRecord_size D \<Longrightarrow> CompressedRecord_at C i = Some (DynamicRecord_at D i)"
proof -
  have runs: "CompressedRecord_runs_list C = Some (body D)"
    unfolding C_def using assms(1) by (rule runs_list_of_writeBWT)
  have out: "comp_outgoing C = outgoing D"
    by (simp add: C_def)
  show deg: "CompressedRecord_outdegree C = DynamicRecord_outdegree D"
    by (simp add: CompressedRecord_outdegree_def DynamicRecord_outdegree_def out)
  show succ: "CompressedRecord_successor C r = DynamicRecord_successor D r" for r
    by (simp add: CompressedRecord_successor_def DynamicRecord_successor_def out)
  show off: "CompressedRecord_offset C r = DynamicRecord_offset D r" for r
    by (simp add: CompressedRecord_offset_def DynamicRecord_offset_def out)
  have "body_size D = of_nat (unat (body_size D))" by simp
  also have "\<dots> = sum_list (map snd (body D))"
    using assms(1) by (simp only: record_ok_def sum_run_lengths)
  finally show "CompressedRecord_size C = Some (DynamicRecord_size D)"
    by (simp add: CompressedRecord_size_def DynamicRecord_size_def runs)
  show "CompressedRecord_runs C = Some (DynamicRecord_runs D)"
    by (simp add: CompressedRecord_runs_def DynamicRecord_runs_def runs)
  have inside: "DynamicRecord_size D \<le> j \<longleftrightarrow> \<not> unat j < length (expand_body (body D))" for j
    using record_ok_size [OF assms(1)]
    by (auto simp: DynamicRecord_size_def word_le_nat_alt)
  show "CompressedRecord_LF C i = Some (DynamicRecord_LF D i)"
    by (simp add: CompressedRecord_LF_def DynamicRecord_LF_def runs LF_scan_eq inside
        succ off Let_def)
  have rank: "rank_to C (body D) outrank j =
                DynamicRecord_offset D outrank +
                  of_nat (rank_in (expand_body (body D)) outrank (unat j))" for outrank j
    by (simp add: rank_to_def off count_scan_eq rank_in_def)
  show "CompressedRecord_LF_to edgeTo C i to = Some (DynamicRecord_LF_to edgeTo D i to)"
    by (simp add: CompressedRecord_LF_to_def DynamicRecord_LF_to_def runs out deg rank Let_def)
  have rng: "range_to edgeTo C (body D) rng to = DynamicRecord_LF_range edgeTo D rng to"
    by (simp add: range_to_def DynamicRecord_LF_range_def DynamicRecord_LF_to_def out deg rank
        Let_def)
  show "CompressedRecord_LF_range edgeTo C rng to = Some (DynamicRecord_LF_range edgeTo D rng to)"
    by (simp add: CompressedRecord_LF_range_def runs rng)
  show "CompressedRecord_bdLF edgeTo C rng to = Some (DynamicRecord_bdLF edgeTo D rng to)"
    by (simp add: CompressedRecord_bdLF_def DynamicRecord_bdLF_def runs rng succ count_scan_eq)
  show "CompressedRecord_at C i = Some (DynamicRecord_at D i)" if "i < DynamicRecord_size D"
    using that
    by (simp add: CompressedRecord_at_def DynamicRecord_at_def runs LF_scan_eq inside succ
        not_le [symmetric])
qed

text \<open>
  C1: for every dynamic record \<open>D\<close> that satisfies the invariants of a record, the bytes
  that \<^verbatim>\<open>writeBWT\<close> writes, wherever they stand in the byte vector, construct a
  compressed record whose operations return what the operations of \<open>D\<close> return:
  \<^verbatim>\<open>size\<close>, \<^verbatim>\<open>runs\<close>, \<^verbatim>\<open>outdegree\<close>, \<^verbatim>\<open>successor\<close>, \<^verbatim>\<open>offset\<close>, \<^verbatim>\<open>LF(i)\<close>,
  \<^verbatim>\<open>LF(i, to)\<close>, \<^verbatim>\<open>LF(range, to)\<close> and \<^verbatim>\<open>bdLF\<close> on every input, and \<^verbatim>\<open>operator[]\<close> on
  every position of the body.
\<close>

theorem compressed_record_equivalence:
  assumes "record_ok D"
  shows "\<exists>C. CompressedRecord_of (pre @ writeBWT D @ post) (length pre)
                (length pre + length (writeBWT D)) = Some C \<and>
           CompressedRecord_size C = Some (DynamicRecord_size D) \<and>
           CompressedRecord_runs C = Some (DynamicRecord_runs D) \<and>
           CompressedRecord_outdegree C = DynamicRecord_outdegree D \<and>
           (\<forall>r. CompressedRecord_successor C r = DynamicRecord_successor D r) \<and>
           (\<forall>r. CompressedRecord_offset C r = DynamicRecord_offset D r) \<and>
           (\<forall>i. CompressedRecord_LF C i = Some (DynamicRecord_LF D i)) \<and>
           (\<forall>i to. CompressedRecord_LF_to edgeTo C i to =
                      Some (DynamicRecord_LF_to edgeTo D i to)) \<and>
           (\<forall>rng to. CompressedRecord_LF_range edgeTo C rng to =
                        Some (DynamicRecord_LF_range edgeTo D rng to)) \<and>
           (\<forall>rng to. CompressedRecord_bdLF edgeTo C rng to =
                        Some (DynamicRecord_bdLF edgeTo D rng to)) \<and>
           (\<forall>i. i < DynamicRecord_size D \<longrightarrow>
                  CompressedRecord_at C i = Some (DynamicRecord_at D i))"
  using CompressedRecord_of_writeBWT [OF assms, of pre post] compressed_view [OF assms]
  by blast

theorem compressed_record_equivalence_witness:
  "record_ok toy_record \<and>
   writeBWT toy_record = [2, 4, 0, 1, 0, 0, 1] \<and>
   CompressedRecord_of [9, 2, 4, 0, 1, 0, 0, 1, 7] 1 8 =
     Some \<lparr> comp_outgoing = [(4, 0), (5, 0)], comp_body = [0, 1] \<rparr> \<and>
   CompressedRecord_size \<lparr> comp_outgoing = [(4, 0), (5, 0)], comp_body = [0, 1] \<rparr> = Some 2 \<and>
   CompressedRecord_LF \<lparr> comp_outgoing = [(4, 0), (5, 0)], comp_body = [0, 1] \<rparr> 1 =
     Some (5, 0) \<and>
   DynamicRecord_LF toy_record 1 = (5, 0) \<and>
   CompressedRecord_bdLF (edgeTo_from 0)
     \<lparr> comp_outgoing = [(4, 0), (5, 0)], comp_body = [0, 1] \<rparr> (0, 1) 4 = Some ((0, 0), 1) \<and>
   1 < DynamicRecord_size toy_record \<and>
   CompressedRecord_at \<lparr> comp_outgoing = [(4, 0), (5, 0)], comp_body = [0, 1] \<rparr> 1 = Some 5"
proof -
  let ?C = "\<lparr> comp_outgoing = [(4, 0), (5, 0)], comp_body = [0 :: byte_type, 1] \<rparr>"
  have ok: "record_ok toy_record"
    by (simp add: record_ok_def toy_record_def DynamicRecord_outdegree_def)
  have bytes: "writeBWT toy_record = [2, 4, 0, 1, 0, 0, 1]"
    by (simp add: writeBWT_def body_bytes_def toy_record_def DynamicRecord_outdegree_def write_body_def
        Run_write_def Run_continues_def joint_code_def ByteCode_write.simps)
  have "read_edges (Suc (Suc 0)) 0 [4, 0, 1, 0, 0, 1, 7] = Some ([(4, 0), (5, 0)], [0, 1, 7])"
    by simp
  then have edges: "read_edges 2 0 [4, 0, 1, 0, 0, 1, 7] = Some ([(4, 0), (5, 0)], [0, 1, 7])"
    by (simp only: numeral_2_eq_2)
  have decode: "CompressedRecord_of [9, 2, 4, 0, 1, 0, 0, 1, 7] 1 8 = Some ?C"
    by (simp add: CompressedRecord_of_def edges)
  from compressed_record_equivalence [OF ok, of "[9]" "[7]" "edgeTo_from 0"]
  obtain C where
    C: "CompressedRecord_of ([9] @ writeBWT toy_record @ [7]) (length [9 :: byte_type])
          (length [9 :: byte_type] + length (writeBWT toy_record)) = Some C"
    and size: "CompressedRecord_size C = Some (DynamicRecord_size toy_record)"
    and lf: "\<forall>i. CompressedRecord_LF C i = Some (DynamicRecord_LF toy_record i)"
    and bd: "\<forall>rng to. CompressedRecord_bdLF (edgeTo_from 0) C rng to =
               Some (DynamicRecord_bdLF (edgeTo_from 0) toy_record rng to)"
    and at: "\<forall>i. i < DynamicRecord_size toy_record \<longrightarrow>
               CompressedRecord_at C i = Some (DynamicRecord_at toy_record i)"
    by blast
  have src: "[9] @ writeBWT toy_record @ [7] = [9, 2, 4, 0, 1, 0, 0, 1, 7]"
    by (simp add: bytes)
  have first: "length [9 :: byte_type] = 1"
    by simp
  have limit: "length [9 :: byte_type] + length (writeBWT toy_record) = 8"
    by (simp add: bytes)
  have "CompressedRecord_of [9, 2, 4, 0, 1, 0, 0, 1, 7] 1 8 = Some C"
    using C [unfolded limit, unfolded first src] .
  then have C_eq: "C = ?C"
    using decode by simp
  have body: "expand_body (body toy_record) = [0, 1]"
    by (simp add: expand_body_def toy_record_def)
  have one: "(1 :: size_type) < DynamicRecord_size toy_record"
    by (simp add: DynamicRecord_size_def toy_record_def word_less_nat_alt)
  have d_size: "DynamicRecord_size toy_record = 2"
    by (simp add: DynamicRecord_size_def toy_record_def)
  have d_lf: "DynamicRecord_LF toy_record 1 = (5, 0)"
    by (simp add: DynamicRecord_LF_def DynamicRecord_size_def body rank_in_def count_in_def
        DynamicRecord_successor_def DynamicRecord_offset_def)
       (simp add: toy_record_def word_le_nat_alt word_less_nat_alt)
  have d_at: "DynamicRecord_at toy_record 1 = 5"
    by (simp add: DynamicRecord_at_def DynamicRecord_size_def body DynamicRecord_successor_def)
       (simp add: toy_record_def word_le_nat_alt word_less_nat_alt)
  have d_bd: "DynamicRecord_bdLF (edgeTo_from 0) toy_record (0, 1) 4 = ((0, 0), 1)"
    by (simp add: DynamicRecord_bdLF_def DynamicRecord_LF_range_def DynamicRecord_LF_to_def
        DynamicRecord_outdegree_def DynamicRecord_offset_def DynamicRecord_successor_def
        body rank_in_def count_in_def Range_empty_def Node_reverse_def REVERSE_MASK_def)
       (simp add: toy_record_def word_le_nat_alt word_less_nat_alt)
  show ?thesis
    using ok bytes decode size lf bd at one
    unfolding C_eq d_size d_lf d_at d_bd
    by (simp add: d_lf d_at d_bd)
qed

end
